theory Spec2Isabelle
  imports Complex_Main "HOL-Library.Product_Lexorder" "HOL-Library.Sublist" "HOL-Library.Multiset"
begin

section \<open>The file index (file_index.py, class FileIndex)\<close>

text \<open>
  The index is a dictionary with the keys \<open>version\<close>, \<open>last_updated\<close>, \<open>files\<close> and
  \<open>directories\<close>. The disk is a partial map from paths to files; a path with no
  entry does not exist. A file that exists may still refuse \<open>open(path, "rb")\<close>
  (no read permission, a directory): its \<open>readable\<close> flag is \<open>False\<close> and only its
  metadata (size, modification time) can be asked for.

  Paths of the model are absolute and normalised, so \<open>os.path.abspath\<close> leaves them
  as they are; \<open>os.path.dirname\<close> and \<open>os.path.basename\<close> are the POSIX ones.

  \<open>hashlib.md5(...).hexdigest()\<close> is a parameter \<open>md5\<close> of every function that
  hashes: the theorems hold for every digest function. A hash is either the hex
  digest of the bytes or \<open>str\<close> of the modification time. Both are strings in the
  source; \<open>str\<close> of a float is injective and never a string of 32 hex digits, so
  the two cases are kept apart by a constructor.

  Writing the JSON file in \<open>_save_index\<close> is not part of the model: \<open>save_index\<close>
  updates the time stamp, as the source does before it writes.
\<close>

type_synonym path = string

record disk_file =
  readable :: bool
  data :: string
  mtime :: real

type_synonym disk = "path \<rightharpoonup> disk_file"

datatype error = FileNotFoundError | IndexError

datatype file_hash = Md5Hex string | MtimeStr real

type_synonym metadata = "(string \<times> string) list"

record extraction_result =
  res_filename :: string
  res_content :: string
  res_type :: "string option"
  res_metadata :: "metadata option"

record file_record =
  rec_path :: path
  rec_filename :: string
  rec_hash :: file_hash
  rec_last_indexed :: real
  rec_type :: string
  rec_size :: nat
  rec_metadata :: metadata

record dir_entry =
  dir_path :: path
  dir_files :: "path list"

record file_index =
  version :: nat
  last_updated :: real
  files :: "path \<rightharpoonup> file_record"
  directories :: "path \<rightharpoonup> dir_entry"

definition abspath :: "path \<Rightarrow> path" where
  "abspath p = p"

definition basename :: "path \<Rightarrow> string" where
  "basename p = rev (takeWhile (\<lambda>c. c \<noteq> CHR ''/'') (rev p))"

definition dirname :: "path \<Rightarrow> path" where
  "dirname p =
     (let head = rev (dropWhile (\<lambda>c. c \<noteq> CHR ''/'') (rev p))
      in if head \<noteq> [] \<and> \<not> list_all (\<lambda>c. c = CHR ''/'') head
         then rev (dropWhile (\<lambda>c. c = CHR ''/'') (rev head))
         else head)"

definition create_empty_index :: "real \<Rightarrow> file_index" where
  "create_empty_index now =
     \<lparr>version = 1, last_updated = now, files = Map.empty, directories = Map.empty\<rparr>"

definition save_index :: "real \<Rightarrow> file_index \<Rightarrow> file_index" where
  "save_index now idx = idx\<lparr>last_updated := now\<rparr>"

definition get_file_hash :: "(string \<Rightarrow> string) \<Rightarrow> disk \<Rightarrow> path \<Rightarrow> error + file_hash" where
  "get_file_hash md5 d file_path =
     (case d file_path of
        None \<Rightarrow> Inl FileNotFoundError
      | Some f \<Rightarrow>
          if readable f then Inr (Md5Hex (md5 (data f)))
          else Inr (MtimeStr (mtime f)))"

definition add_file ::
  "(string \<Rightarrow> string) \<Rightarrow> disk \<Rightarrow> real \<Rightarrow> file_index \<Rightarrow> path \<Rightarrow> extraction_result
     \<Rightarrow> error + file_index" where
  "add_file md5 d now idx file_path file_info =
     (let abs_path = abspath file_path in
      case get_file_hash md5 d abs_path of
        Inl e \<Rightarrow> Inl e
      | Inr file_hash \<Rightarrow>
          let directory = dirname abs_path;
              entry = (case directories idx directory of
                         None \<Rightarrow> \<lparr>dir_path = directory, dir_files = []\<rparr>
                       | Some e \<Rightarrow> e);
              entry' = (if abs_path \<notin> set (dir_files entry)
                        then entry\<lparr>dir_files := dir_files entry @ [abs_path]\<rparr>
                        else entry)
          in case d abs_path of
               None \<Rightarrow> Inl FileNotFoundError
             | Some f \<Rightarrow>
                 Inr (save_index now
                   (idx\<lparr>directories := (directories idx)(directory \<mapsto> entry'),
                        files := (files idx)(abs_path \<mapsto>
                          \<lparr>rec_path = abs_path,
                           rec_filename = basename abs_path,
                           rec_hash = file_hash,
                           rec_last_indexed = now,
                           rec_type = (case res_type file_info of None \<Rightarrow> ''unknown'' | Some t \<Rightarrow> t),
                           rec_size = length (data f),
                           rec_metadata = (case res_metadata file_info of None \<Rightarrow> [] | Some m \<Rightarrow> m)\<rparr>)\<rparr>)))"

definition remove_file :: "real \<Rightarrow> file_index \<Rightarrow> path \<Rightarrow> file_index" where
  "remove_file now idx file_path =
     (let abs_path = abspath file_path;
          files' = (files idx)(abs_path := None);
          directory = dirname abs_path;
          dirs' = (case directories idx directory of
                     None \<Rightarrow> directories idx
                   | Some e \<Rightarrow>
                       (directories idx)(directory \<mapsto> e\<lparr>dir_files := remove1 abs_path (dir_files e)\<rparr>))
      in save_index now (idx\<lparr>files := files', directories := dirs'\<rparr>))"

definition get_file_info :: "file_index \<Rightarrow> path \<Rightarrow> file_record option" where
  "get_file_info idx file_path = files idx (abspath file_path)"

definition file_needs_update ::
  "(string \<Rightarrow> string) \<Rightarrow> file_index \<Rightarrow> disk \<Rightarrow> path \<Rightarrow> error + bool" where
  "file_needs_update md5 idx d file_path =
     (let abs_path = abspath file_path in
      case files idx abs_path of
        None \<Rightarrow> Inr True
      | Some r \<Rightarrow>
          (case get_file_hash md5 d abs_path of
             Inl e \<Rightarrow> Inl e
           | Inr file_hash \<Rightarrow> Inr (file_hash \<noteq> rec_hash r)))"

definition get_files_in_directory :: "file_index \<Rightarrow> path \<Rightarrow> file_record list" where
  "get_files_in_directory idx directory =
     (case directories idx (abspath directory) of
        None \<Rightarrow> []
      | Some e \<Rightarrow> List.map_filter (files idx) (dir_files e))"

definition clear_index :: "real \<Rightarrow> file_index" where
  "clear_index now = save_index now (create_empty_index now)"

text \<open>
  The states the three mutating operations can produce, starting from the empty
  index. An \<open>add_file\<close> that raises leaves the index as it was (the hash is computed
  before anything is written), so only a completed call is a step.
\<close>

inductive reachable :: "(string \<Rightarrow> string) \<Rightarrow> file_index \<Rightarrow> bool" for md5 where
  reach_empty: "reachable md5 (create_empty_index now)"
| reach_add: "reachable md5 idx \<Longrightarrow> add_file md5 d now idx p info = Inr idx' \<Longrightarrow> reachable md5 idx'"
| reach_remove: "reachable md5 idx \<Longrightarrow> reachable md5 (remove_file now idx p)"
| reach_clear: "reachable md5 idx \<Longrightarrow> reachable md5 (clear_index now)"

definition index_consistent :: "file_index \<Rightarrow> bool" where
  "index_consistent idx =
     (\<forall>d e. directories idx d = Some e \<longrightarrow> (\<forall>p \<in> set (dir_files e). files idx p \<noteq> None))"

definition dirs_wellformed :: "file_index \<Rightarrow> bool" where
  "dirs_wellformed idx =
     (\<forall>d e. directories idx d = Some e \<longrightarrow>
        distinct (dir_files e) \<and> (\<forall>p \<in> set (dir_files e). dirname p = d \<and> files idx p \<noteq> None))"

section \<open>Chunking (file_handler.py, FileProcessor.chunk_document)\<close>

text \<open>
  \<open>py_index\<close> is \<open>text[i]\<close> and \<open>py_slice\<close> is \<open>text[lo:hi]\<close>, with Python's
  negative indices. The \<open>for\<close> loop that looks for a break point is \<open>find_break\<close>;
  the \<open>while\<close> loop is \<open>chunk_loop\<close>, where not returning is the value \<open>None\<close>.
\<close>

definition py_index :: "string \<Rightarrow> int \<Rightarrow> error + char" where
  "py_index text i =
     (if 0 \<le> i \<and> i < int (length text) then Inr (text ! nat i)
      else if i < 0 \<and> - int (length text) \<le> i then Inr (text ! nat (int (length text) + i))
      else Inl IndexError)"

definition py_slice :: "string \<Rightarrow> int \<Rightarrow> int \<Rightarrow> string" where
  "py_slice text lo hi =
     (let n = int (length text);
          a = (if lo < 0 then max 0 (n + lo) else min lo n);
          b = (if hi < 0 then max 0 (n + hi) else min hi n)
      in take (nat (b - a)) (drop (nat a) text))"

definition is_break :: "char \<Rightarrow> bool" where
  "is_break c = (c \<in> set [CHR ''.'', CHR 0x0A, CHR ''!'', CHR ''?''])"

function find_break :: "string \<Rightarrow> int \<Rightarrow> int \<Rightarrow> error + int option" where
  "find_break text i lo =
     (if i \<le> lo then Inr None
      else case py_index text i of
             Inl e \<Rightarrow> Inl e
           | Inr c \<Rightarrow> if is_break c then Inr (Some i) else find_break text (i - 1) lo)"
  by pat_completeness auto
termination
  by (relation "measure (\<lambda>(text, i, lo). nat (i - lo))") auto

partial_function (option) chunk_loop ::
  "string \<Rightarrow> int \<Rightarrow> int \<Rightarrow> int \<Rightarrow> string list \<Rightarrow> (error + string list) option" where
  "chunk_loop text chunk_size overlap start chunks =
     (if start < int (length text) then
        (let end0 = min (start + chunk_size) (int (length text)) in
         case (if end0 < int (length text)
               then find_break text end0 (max (end0 - 100) start)
               else Inr None) of
           Inl e \<Rightarrow> Some (Inl e)
         | Inr b \<Rightarrow>
             (let end1 = (case b of None \<Rightarrow> end0 | Some i \<Rightarrow> i + 1)
              in chunk_loop text chunk_size overlap (end1 - overlap)
                   (chunks @ [py_slice text start end1])))
      else Some (Inr chunks))"

definition chunk_document :: "string \<Rightarrow> int \<Rightarrow> int \<Rightarrow> (error + string list) option" where
  "chunk_document text chunk_size overlap = chunk_loop text chunk_size overlap 0 []"

declare find_break.simps [simp del]

section \<open>Snippets (app.py, search_files and _find_relevant_snippet)\<close>

text \<open>
  Strings are lists of 8-bit characters, so \<open>str.lower\<close>, \<open>str.isspace\<close> and the
  regular expression class \<open>\w\<close> are the ASCII ones. \<open>py_find s sub start\<close> is
  \<open>s.find(sub, start)\<close>, with \<open>None\<close> for \<open>-1\<close>. The \<open>while\<close> loop that collects the
  positions of one term is \<open>term_hits\<close>; the loop over the hits that keeps the best
  window is \<open>best_window\<close>. \<open>context_size\<close> is a natural number (the source only
  passes the default 50), so \<open>max(0, pos - context_size)\<close> is the truncated
  difference. \<open>search_snippet\<close> is the part of \<open>search_files\<close> that builds the
  text shown after \<open>Snippet:\<close> for a document whose content is a string.
\<close>

definition lower_char :: "char \<Rightarrow> char" where
  "lower_char c =
     (let n = (of_char c :: nat) in if 65 \<le> n \<and> n \<le> 90 then char_of (n + 32) else c)"

definition lower :: "string \<Rightarrow> string" where
  "lower s = map lower_char s"

definition flatten_newlines :: "string \<Rightarrow> string" where
  "flatten_newlines s = map (\<lambda>c. if c = CHR 0x0A then CHR '' '' else c) s"

definition is_space :: "char \<Rightarrow> bool" where
  "is_space c = ((of_char c :: nat) \<in> set [9, 10, 11, 12, 13, 28, 29, 30, 31, 32])"

definition strip :: "string \<Rightarrow> string" where
  "strip s = rev (dropWhile is_space (rev (dropWhile is_space s)))"

fun split_runs :: "(char \<Rightarrow> bool) \<Rightarrow> string \<Rightarrow> string \<Rightarrow> string list" where
  "split_runs keep cur [] = (if cur = [] then [] else [cur])"
| "split_runs keep cur (c # cs) =
     (if keep c then split_runs keep (cur @ [c]) cs
      else (if cur = [] then [] else [cur]) @ split_runs keep [] cs)"

definition py_split :: "string \<Rightarrow> string list" where
  "py_split s = split_runs (\<lambda>c. \<not> is_space c) [] s"

definition py_find :: "string \<Rightarrow> string \<Rightarrow> nat \<Rightarrow> nat option" where
  "py_find s sub start =
     List.find (\<lambda>p. take (length sub) (drop p s) = sub) [start ..< Suc (length s) - length sub]"

lemma py_find_bounds: "py_find s sub start = Some pos \<Longrightarrow> start \<le> pos \<and> pos \<le> length s"
  by (auto simp: py_find_def find_Some_iff)

function term_hits :: "string \<Rightarrow> string \<Rightarrow> nat \<Rightarrow> (nat \<times> nat) list" where
  "term_hits s term start =
     (case py_find s term start of
        None \<Rightarrow> []
      | Some pos \<Rightarrow> (pos, length term) # term_hits s term (pos + 1))"
  by pat_completeness auto
termination
  by (relation "measure (\<lambda>(s, term, start). Suc (length s) - start)")
     (auto dest: py_find_bounds)

declare term_hits.simps [simp del]

definition term_positions :: "string \<Rightarrow> string list \<Rightarrow> (nat \<times> nat) list" where
  "term_positions content_lower query_terms =
     sort (concat (map (\<lambda>term. term_hits content_lower term 0) query_terms))"

definition terms_in_snippet :: "(nat \<times> nat) list \<Rightarrow> nat \<Rightarrow> nat \<Rightarrow> nat \<Rightarrow> nat" where
  "terms_in_snippet tp i start stop =
     1 + length (filter (\<lambda>(j, (other_pos, other_length)). i \<noteq> j \<and> start \<le> other_pos \<and> other_pos < stop)
                   (enumerate 0 tp))"

definition best_window :: "nat \<Rightarrow> nat \<Rightarrow> (nat \<times> nat) list \<Rightarrow> nat \<times> nat" where
  "best_window n context_size tp =
     foldl (\<lambda>(best_score, best_start) (i, (pos, len)).
              let start = pos - context_size;
                  stop = min n (pos + len + context_size);
                  k = terms_in_snippet tp i start stop
              in if k > best_score then (k, start) else (best_score, best_start))
           (0, 0) (enumerate 0 tp)"

definition find_relevant_snippet :: "string \<Rightarrow> string list \<Rightarrow> nat \<Rightarrow> string" where
  "find_relevant_snippet content query_terms context_size =
     (if content = [] \<or> query_terms = [] then []
      else let content_lower = lower (flatten_newlines content);
               tp = term_positions content_lower query_terms
           in if tp = [] then []
              else let best_start = snd (best_window (length content) context_size tp);
                       stop = min (length content) (best_start + context_size * 2)
                   in strip (flatten_newlines (take (stop - best_start) (drop best_start content))))"

definition search_snippet :: "string \<Rightarrow> string \<Rightarrow> string" where
  "search_snippet content query =
     (let query_terms = py_split (lower query);
          best_snippet = find_relevant_snippet content query_terms 50
      in if best_snippet \<noteq> [] then best_snippet @ ''...''
         else let snippet = strip (flatten_newlines (take 100 content))
              in if length content > 100 then snippet @ ''...'' else snippet)"

section \<open>Keyword retrieval (retrieval_system.py, class KeywordRetriever)\<close>

text \<open>
  A Python dictionary keeps its keys in insertion order, and \<open>retrieve\<close> sorts the
  keys of \<open>scores\<close> with a stable sort, so dictionaries whose order is observed are
  association lists: \<open>dict_set\<close> is \<open>d[k] = v\<close> (a new key goes to the end, an old
  key keeps its place) and \<open>map_of\<close> is the lookup.

  A document is a dictionary with an optional \<open>id\<close> (an integer or a string) and a
  \<open>content\<close> that is a string, a structure (a dict or list, kept here as the text
  \<open>json.dumps\<close> gives for it) or anything else (no text). In \<open>calculate_score\<close>,
  \<open>score_all\<close> and \<open>retrieve\<close> of this section the numbers are real numbers and
  \<open>math.log\<close> is \<open>ln\<close>; floating point computes the same where it rounds nothing,
  as in a corpus of one document, where every quotient is \<open>1\<close> and every score
  \<open>0\<close>. The next section has the same functions in an arbitrary arithmetic.
\<close>

datatype doc_key = IntId int | StrId string

datatype content = Text string | Structured string | NoText

record document =
  doc_id :: "doc_key option"
  doc_filename :: string
  doc_content :: content

type_synonym posting = "(doc_key \<times> nat) list"

record keyword_retriever =
  documents :: "document list"
  index :: "(string \<times> posting) list"

fun dict_set :: "'k \<Rightarrow> 'v \<Rightarrow> ('k \<times> 'v) list \<Rightarrow> ('k \<times> 'v) list" where
  "dict_set k v [] = [(k, v)]"
| "dict_set k v (p # ps) = (if fst p = k then (k, v) # ps else p # dict_set k v ps)"

definition is_word_char :: "char \<Rightarrow> bool" where
  "is_word_char c =
     (let n = (of_char c :: nat)
      in (48 \<le> n \<and> n \<le> 57) \<or> (65 \<le> n \<and> n \<le> 90) \<or> n = 95 \<or> (97 \<le> n \<and> n \<le> 122))"

definition tokenize :: "string \<Rightarrow> string list" where
  "tokenize text = split_runs is_word_char [] (lower text)"

definition empty_retriever :: keyword_retriever where
  "empty_retriever = \<lparr>documents = [], index = []\<rparr>"

definition content_text :: "document \<Rightarrow> string" where
  "content_text document =
     (case doc_content document of Text s \<Rightarrow> s | Structured s \<Rightarrow> s | NoText \<Rightarrow> [])"

definition count_token :: "doc_key \<Rightarrow> (string \<times> posting) list \<Rightarrow> string \<Rightarrow> (string \<times> posting) list" where
  "count_token did idx token =
     (let entry = (case map_of idx token of None \<Rightarrow> [] | Some p \<Rightarrow> p);
          n = (case map_of entry did of None \<Rightarrow> 0 | Some c \<Rightarrow> c)
      in dict_set token (dict_set did (n + 1) entry) idx)"

definition add_document :: "keyword_retriever \<Rightarrow> document \<Rightarrow> keyword_retriever" where
  "add_document r document =
     (let did = (case doc_id document of
                   None \<Rightarrow> IntId (int (length (documents r)))
                 | Some i \<Rightarrow> i);
          tokens = tokenize (content_text document)
      in \<lparr>documents = documents r @ [document\<lparr>doc_id := Some did\<rparr>],
          index = foldl (count_token did) (index r) tokens\<rparr>)"

definition calculate_score :: "keyword_retriever \<Rightarrow> string list \<Rightarrow> doc_key \<Rightarrow> real" where
  "calculate_score r query_tokens did =
     foldl (\<lambda>score token.
              case map_of (index r) token of
                None \<Rightarrow> score
              | Some entry \<Rightarrow>
                  (case map_of entry did of
                     None \<Rightarrow> score
                   | Some tf \<Rightarrow>
                       score + real tf * ln (real (length (documents r)) / real (length entry))))
           0 query_tokens"

definition add_score :: "(doc_key \<times> real) list \<Rightarrow> doc_key \<Rightarrow> real \<Rightarrow> (doc_key \<times> real) list" where
  "add_score scores did x =
     dict_set did ((case map_of scores did of None \<Rightarrow> 0 | Some s \<Rightarrow> s) + x) scores"

definition score_all :: "keyword_retriever \<Rightarrow> string list \<Rightarrow> (doc_key \<times> real) list" where
  "score_all r query_tokens =
     foldl (\<lambda>scores token.
              case map_of (index r) token of
                None \<Rightarrow> scores
              | Some entry \<Rightarrow>
                  foldl (\<lambda>sc (did, count). add_score sc did (calculate_score r [token] did))
                        scores entry)
           [] query_tokens"

definition py_prefix :: "'a list \<Rightarrow> int \<Rightarrow> 'a list" where
  "py_prefix xs k = (if 0 \<le> k then take (nat k) xs else take (length xs - nat (- k)) xs)"

definition retrieve :: "keyword_retriever \<Rightarrow> string \<Rightarrow> int \<Rightarrow> (document \<times> real) list" where
  "retrieve r query top_k =
     (let query_tokens = tokenize query;
          scores = score_all r query_tokens;
          result_ids = py_prefix (sort_key (\<lambda>x. - (case map_of scores x of None \<Rightarrow> 0 | Some s \<Rightarrow> s))
                                   (map fst scores)) top_k;
          id_to_doc = map_of (rev (map (\<lambda>doc. (doc_id doc, doc)) (documents r)))
      in List.map_filter
           (\<lambda>did. case id_to_doc (Some did) of
                     None \<Rightarrow> None
                   | Some doc \<Rightarrow> Some (doc, case map_of scores did of None \<Rightarrow> 0 | Some s \<Rightarrow> s))
           result_ids)"

text \<open>
  The notions the statements about \<open>retrieve\<close> are written in: the tokens of a
  document, the frequency of a token in a document, the documents that contain a
  token (in insertion order), the score as the specification writes it, and the
  order in which \<open>retrieve\<close> first meets the documents while it goes through the
  query tokens from left to right and, for each token, through the documents that
  contain it.
\<close>

definition tokens_of :: "document \<Rightarrow> string list" where
  "tokens_of d = tokenize (content_text d)"

definition term_frequency :: "string \<Rightarrow> document \<Rightarrow> nat" where
  "term_frequency t d = count_list (tokens_of d) t"

definition containing :: "keyword_retriever \<Rightarrow> string \<Rightarrow> document list" where
  "containing r t = filter (\<lambda>d. t \<in> set (tokens_of d)) (documents r)"

definition idf :: "keyword_retriever \<Rightarrow> string \<Rightarrow> real" where
  "idf r t = ln (real (length (documents r)) / real (length (containing r t)))"

definition tf_idf :: "keyword_retriever \<Rightarrow> string list \<Rightarrow> document \<Rightarrow> real" where
  "tf_idf r query_tokens d =
     sum_list (map (\<lambda>t. if t \<in> set (tokens_of d) then real (term_frequency t d) * idf r t else 0)
                   query_tokens)"

definition first_occurrences :: "'a list \<Rightarrow> 'a list" where
  "first_occurrences xs = rev (remdups (rev xs))"

definition encounter_order :: "keyword_retriever \<Rightarrow> string list \<Rightarrow> document list" where
  "encounter_order r query_tokens = first_occurrences (concat (map (containing r) query_tokens))"

definition entry_of :: "(string \<times> posting) list \<Rightarrow> string \<Rightarrow> posting" where
  "entry_of idx t = (case map_of idx t of None \<Rightarrow> [] | Some p \<Rightarrow> p)"

text \<open>
  Notions of the proofs: the count a posting list holds for a document, the state
  of the index after any number of \<open>add_document\<close> calls with distinct ids, and the
  two loops of \<open>retrieve\<close> written as one pass over a list of increments.
\<close>

definition count_in :: "posting \<Rightarrow> doc_key \<Rightarrow> nat" where
  "count_in e did = (case map_of e did of None \<Rightarrow> 0 | Some c \<Rightarrow> c)"

definition well_indexed :: "keyword_retriever \<Rightarrow> bool" where
  "well_indexed r =
     ((\<forall>d \<in> set (documents r). doc_id d \<noteq> None) \<and>
      distinct (map doc_id (documents r)) \<and>
      (\<forall>t. entry_of (index r) t = map (\<lambda>d. (the (doc_id d), term_frequency t d)) (containing r t)))"

definition accumulate :: "(doc_key \<times> real) list \<Rightarrow> (doc_key \<times> real) list \<Rightarrow> (doc_key \<times> real) list" where
  "accumulate sc ps = foldl (\<lambda>sc (did, x). add_score sc did x) sc ps"

definition increments :: "keyword_retriever \<Rightarrow> string list \<Rightarrow> (doc_key \<times> real) list" where
  "increments r q =
     concat (map (\<lambda>t. map (\<lambda>(did, c). (did, calculate_score r [t] did)) (entry_of (index r) t)) q)"

definition key_of :: "document \<Rightarrow> doc_key" where
  "key_of d = the (doc_id d)"

section \<open>Keyword retrieval in the arithmetic of the interpreter\<close>

text \<open>
  The scores of \<open>retrieve\<close> are Python numbers: the integer \<open>0\<close> each score starts
  from, and the floats that \<open>len(...) / len(...)\<close>, \<open>math.log\<close>, \<open>tf * idf\<close> and \<open>+=\<close>
  give. Floating-point addition rounds, so the value of a sum depends on the
  order of its terms and need not be the real sum. The functions below are
  \<open>_calculate_score\<close> and \<open>retrieve\<close> with that arithmetic as a parameter: a type of
  numbers that is linearly ordered (Python numbers compare so; no NaN occurs,
  every quotient is at least 1), with the number \<open>0\<close>, the sum of two numbers, the
  product of an integer and a number, the quotient of two integers and the
  logarithm. What is proved of them holds for every such arithmetic, and so for
  the one of the interpreter.

  \<open>sorted(keys, key=..., reverse=True)\<close> is stable also in reverse: CPython reverses
  the list, sorts it with its stable sort and reverses the result.
\<close>

record 'n arith =
  num_zero :: 'n
  num_add :: "'n \<Rightarrow> 'n \<Rightarrow> 'n"
  num_times :: "nat \<Rightarrow> 'n \<Rightarrow> 'n"
  num_quot :: "nat \<Rightarrow> nat \<Rightarrow> 'n"
  num_log :: "'n \<Rightarrow> 'n"

definition calculate_score_in ::
  "'n arith \<Rightarrow> keyword_retriever \<Rightarrow> string list \<Rightarrow> doc_key \<Rightarrow> 'n" where
  "calculate_score_in ar r query_tokens did =
     foldl (\<lambda>score token.
              case map_of (index r) token of
                None \<Rightarrow> score
              | Some entry \<Rightarrow>
                  (case map_of entry did of
                     None \<Rightarrow> score
                   | Some tf \<Rightarrow>
                       num_add ar score
                         (num_times ar tf
                            (num_log ar (num_quot ar (length (documents r)) (length entry))))))
           (num_zero ar) query_tokens"

definition add_score_in ::
  "'n arith \<Rightarrow> (doc_key \<times> 'n) list \<Rightarrow> doc_key \<Rightarrow> 'n \<Rightarrow> (doc_key \<times> 'n) list" where
  "add_score_in ar scores did x =
     dict_set did (num_add ar (case map_of scores did of None \<Rightarrow> num_zero ar | Some s \<Rightarrow> s) x) scores"

definition score_all_in ::
  "'n arith \<Rightarrow> keyword_retriever \<Rightarrow> string list \<Rightarrow> (doc_key \<times> 'n) list" where
  "score_all_in ar r query_tokens =
     foldl (\<lambda>scores token.
              case map_of (index r) token of
                None \<Rightarrow> scores
              | Some entry \<Rightarrow>
                  foldl (\<lambda>sc (did, count). add_score_in ar sc did (calculate_score_in ar r [token] did))
                        scores entry)
           [] query_tokens"

definition sorted_reverse :: "('a \<Rightarrow> 'n :: linorder) \<Rightarrow> 'a list \<Rightarrow> 'a list" where
  "sorted_reverse key xs = rev (sort_key key (rev xs))"

definition retrieve_in ::
  "('n :: linorder) arith \<Rightarrow> keyword_retriever \<Rightarrow> string \<Rightarrow> int \<Rightarrow> (document \<times> 'n) list" where
  "retrieve_in ar r query top_k =
     (let query_tokens = tokenize query;
          scores = score_all_in ar r query_tokens;
          result_ids = py_prefix (sorted_reverse
                                    (\<lambda>x. case map_of scores x of None \<Rightarrow> num_zero ar | Some s \<Rightarrow> s)
                                    (map fst scores)) top_k;
          id_to_doc = map_of (rev (map (\<lambda>doc. (doc_id doc, doc)) (documents r)))
      in List.map_filter
           (\<lambda>did. case id_to_doc (Some did) of
                     None \<Rightarrow> None
                   | Some doc \<Rightarrow>
                       Some (doc, case map_of scores did of None \<Rightarrow> num_zero ar | Some s \<Rightarrow> s))
           result_ids)"

text \<open>
  Exact arithmetic on the real numbers is one such arithmetic; with it
  \<open>retrieve_in\<close> is \<open>retrieve\<close>.
\<close>

definition exact_arith :: "real arith" where
  "exact_arith =
     \<lparr>num_zero = 0, num_add = (\<lambda>x y. x + y), num_times = (\<lambda>n x. real n * x),
      num_quot = (\<lambda>n m. real n / real m), num_log = ln\<rparr>"

text \<open>
  The score as the specification writes it, in a given arithmetic: for every
  token of the query that occurs in the document, from left to right, the term
  frequency times the logarithm of the number of documents over the number of
  documents that contain the token is added (as \<open>0 + tf * idf\<close>, which is what
  \<open>_calculate_score\<close> returns for one token) to the score, which starts at \<open>0\<close>.
\<close>

definition term_score_in :: "'n arith \<Rightarrow> keyword_retriever \<Rightarrow> string \<Rightarrow> document \<Rightarrow> 'n" where
  "term_score_in ar r t d =
     num_add ar (num_zero ar)
       (num_times ar (term_frequency t d)
          (num_log ar (num_quot ar (length (documents r)) (length (containing r t)))))"

definition score_in :: "'n arith \<Rightarrow> keyword_retriever \<Rightarrow> string list \<Rightarrow> document \<Rightarrow> 'n" where
  "score_in ar r query_tokens d =
     foldl (\<lambda>s t. if t \<in> set (tokens_of d) then num_add ar s (term_score_in ar r t d) else s)
           (num_zero ar) query_tokens"

definition accumulate_in ::
  "'n arith \<Rightarrow> (doc_key \<times> 'n) list \<Rightarrow> (doc_key \<times> 'n) list \<Rightarrow> (doc_key \<times> 'n) list" where
  "accumulate_in ar sc ps = foldl (\<lambda>sc (did, x). add_score_in ar sc did x) sc ps"

definition increments_in :: "'n arith \<Rightarrow> keyword_retriever \<Rightarrow> string list \<Rightarrow> (doc_key \<times> 'n) list" where
  "increments_in ar r q =
     concat (map (\<lambda>t. map (\<lambda>(did, c). (did, calculate_score_in ar r [t] did)) (entry_of (index r) t)) q)"


section \<open>Batch processing (file_batch_processor.py)\<close>

text \<open>
  A job is a \<open>FileProcessingJob\<close> without its two time stamps. The methods of the
  text and document handlers that \<open>_process_file\<close> calls are the fields of a
  record \<open>handlers\<close>; each takes the file name (the handlers already point at the
  directory) and returns the content, or \<open>Inl\<close> the text of the exception it
  raises. \<open>get_file_type\<close> is the one of \<open>FileProcessor\<close>, with \<open>Path(name).suffix\<close>
  as pathlib computes it.

  The worker threads only write to their own job, so the jobs after the pool has
  run are \<open>map (process_file h)\<close> of the new jobs. The loop over \<open>as_completed\<close>
  runs in the main thread; the order in which the futures complete is a parameter
  \<open>sched\<close>, which gives for \<open>K\<close> submitted jobs the order of their indices. A
  callback takes the job's dictionary and the state it works on and returns the
  new state and, when it raises, the text of the exception. \<open>run_calls\<close> records
  the argument of every callback invocation; \<open>run_raised\<close> holds the exception
  that leaves \<open>process_directory\<close>, if any.
\<close>

datatype job_status = Pending | Processing | Completed | Failed

record job =
  job_filename :: string
  job_file_type :: string
  job_status :: job_status
  job_error :: "string option"
  job_result :: "extraction_result option"

record handlers =
  read_text :: "string \<Rightarrow> string + string"
  read_json :: "string \<Rightarrow> string + string"
  read_csv :: "string \<Rightarrow> string + string"
  pdf_available :: bool
  docx_available :: bool
  extract_text_from_pdf :: "string \<Rightarrow> string + string"
  extract_text_from_docx :: "string \<Rightarrow> string + string"
  get_document_metadata :: "string \<Rightarrow> string + metadata"

definition new_job :: "string \<Rightarrow> string \<Rightarrow> job" where
  "new_job filename file_type =
     \<lparr>job_filename = filename, job_file_type = file_type, job_status = Pending,
      job_error = None, job_result = None\<rparr>"

definition start :: "job \<Rightarrow> job" where
  "start j = j\<lparr>job_status := Processing\<rparr>"

definition complete :: "job \<Rightarrow> extraction_result \<Rightarrow> job" where
  "complete j result = j\<lparr>job_status := Completed, job_result := Some result\<rparr>"

definition fail :: "job \<Rightarrow> string \<Rightarrow> job" where
  "fail j err = j\<lparr>job_status := Failed, job_error := Some err\<rparr>"

definition path_suffix :: "string \<Rightarrow> string" where
  "path_suffix filename =
     (let name = basename filename;
          ext = rev (takeWhile (\<lambda>c. c \<noteq> CHR ''.'') (rev name))
      in if CHR ''.'' \<in> set name \<and> ext \<noteq> [] \<and> Suc (length ext) < length name
         then CHR ''.'' # ext else [])"

definition get_file_type :: "string \<Rightarrow> string" where
  "get_file_type filename =
     (let extension = lower (path_suffix filename)
      in if extension = ''.txt'' then ''text''
         else if extension = ''.json'' then ''json''
         else if extension = ''.csv'' then ''csv''
         else if extension = ''.pdf'' then ''pdf''
         else if extension = ''.docx'' then ''docx''
         else ''unknown'')"

definition read_by_type :: "handlers \<Rightarrow> string \<Rightarrow> string \<Rightarrow> ((string + string) \<times> string) option" where
  "read_by_type h file_type filename =
     (if file_type = ''text'' then Some (read_text h filename, ''text'')
      else if file_type = ''json'' then Some (read_json h filename, ''json'')
      else if file_type = ''csv'' then Some (read_csv h filename, ''csv'')
      else if file_type = ''pdf'' \<and> pdf_available h
        then Some (extract_text_from_pdf h filename, ''pdf'')
      else if file_type = ''docx'' \<and> docx_available h
        then Some (extract_text_from_docx h filename, ''docx'')
      else None)"

definition process_file :: "handlers \<Rightarrow> job \<Rightarrow> job" where
  "process_file h job0 =
     (let j = start job0;
          filename = job_filename j;
          file_type = job_file_type j
      in case read_by_type h file_type filename of
           None \<Rightarrow> fail j (''Unsupported file type: '' @ file_type)
         | Some (Inl e, ty) \<Rightarrow> fail j (''Error processing file: '' @ e)
         | Some (Inr content, ty) \<Rightarrow>
             (let result = \<lparr>res_filename = filename, res_content = content,
                            res_type = Some ty, res_metadata = None\<rparr>
              in if file_type = ''pdf'' \<or> file_type = ''docx''
                 then (case get_document_metadata h filename of
                         Inl e \<Rightarrow> fail j (''Error processing file: '' @ e)
                       | Inr m \<Rightarrow> complete j (result\<lparr>res_metadata := Some m\<rparr>))
                 else complete j result))"


type_synonym 's callback = "job \<Rightarrow> 's \<Rightarrow> 's \<times> string option"

record 's run =
  run_jobs :: "job list"
  run_results :: "extraction_result list"
  run_state :: 's
  run_calls :: "job list"
  run_raised :: "string option"

definition handle_completed :: "'s callback option \<Rightarrow> 's run \<Rightarrow> nat \<Rightarrow> 's run" where
  "handle_completed callback st i =
     (if run_raised st \<noteq> None \<or> \<not> i < length (run_jobs st) then st
      else
        let processed_job = run_jobs st ! i;
            st1 = (case job_result processed_job of
                     Some result \<Rightarrow>
                       if job_status processed_job = Completed
                       then st\<lparr>run_results := run_results st @ [result]\<rparr> else st
                   | None \<Rightarrow> st)
        in case callback of
             None \<Rightarrow> st1
           | Some cb \<Rightarrow>
               (case cb processed_job (run_state st1) of
                  (s1, None) \<Rightarrow>
                    st1\<lparr>run_state := s1, run_calls := run_calls st1 @ [processed_job]\<rparr>
                | (s1, Some e) \<Rightarrow>
                    (let failed_job = fail processed_job e
                     in case cb failed_job s1 of
                          (s2, raised) \<Rightarrow>
                            st1\<lparr>run_jobs := (run_jobs st1)[i := failed_job],
                                run_state := s2,
                                run_calls := run_calls st1 @ [processed_job, failed_job],
                                run_raised := raised\<rparr>)))"

definition process_directory ::
  "handlers \<Rightarrow> string list \<Rightarrow> 's callback option \<Rightarrow> (nat \<Rightarrow> nat list) \<Rightarrow> 's \<Rightarrow> 's run" where
  "process_directory h listing callback sched s =
     (let jobs = map (\<lambda>filename. new_job filename (get_file_type filename)) listing;
          processed = map (process_file h) jobs
      in foldl (handle_completed callback)
           \<lparr>run_jobs = processed, run_results = [], run_state = s, run_calls = [],
            run_raised = None\<rparr>
           (sched (length listing)))"


definition count_status :: "job_status \<Rightarrow> job list \<Rightarrow> nat" where
  "count_status s jobs = length (filter (\<lambda>j. job_status j = s) jobs)"


section \<open>The index builder (file_index.py, class FileIndexBuilder)\<close>

text \<open>
  The regular files on disk are an association list from their absolute,
  normalised paths to the files, in the order in which \<open>os.walk\<close> visits them;
  \<open>map_of\<close> of it is the disk of the file index. \<open>cwd\<close> is the working directory of
  the process. The directory given to \<open>index_directory\<close> is a normalised path other
  than the root, absolute or relative to \<open>cwd\<close> without \<open>.\<close> and \<open>..\<close>; \<open>os.walk\<close>
  gives the paths below it as it was given, so they are absolute or relative as
  the directory is, and nothing for the empty string. \<open>file_needs_update\<close> and
  \<open>add_file\<close> begin with \<open>os.path.abspath\<close>; the functions of the index model take
  absolute paths, so the builder hands them \<open>absolute cwd file_path\<close>.

  The staging directory is the relative path \<open>data/temp_index\<close>; \<open>data\<close> and
  \<open>data/temp_index\<close> are directories or absent, and \<open>data/temp_index\<close> has no
  subdirectory. When there is something to index the files in it are removed
  first, so it then holds what this run stages: \<open>staged\<close> maps each link name to
  the text of the link, which is the path as \<open>os.walk\<close> gave it. \<open>os.symlink\<close> is
  taken to be available (POSIX). A link with an absolute text leads to that file.
  A link with a relative text is resolved from the staging directory, where
  nothing is: it dangles, \<open>os.path.isfile\<close> is false for it and no job is made for
  it. So does the link to a file that lay in the staging directory and was
  removed (the link then has the path of the file, and points to itself).
  \<open>os.symlink\<close> raises when the name is taken (a second file with the same base
  name), and the fallback \<open>shutil.copy2\<close> then writes through the link that is
  already there, onto the first file of that name (every file is taken to be
  writable); it fails when source and target are the same file, when the source
  cannot be read and when the link dangles.

  The handlers of the batch processor read the staging directory through the
  links; how they decode a file is the parameter \<open>open_handlers\<close>, from a directory
  (file name to file) to the handlers. The order in which \<open>os.listdir\<close> gives the
  names of the staging directory is the parameter \<open>listdir\<close>, applied to the names
  in the order of their creation.

  An \<open>index_result\<close> is the returned summary without its duration. The run also
  returns the index and the files of the given tree as it leaves them: without
  those removed from the staging directory, and with what a copy has overwritten.
  The links the run creates in the staging directory and the index file that
  \<open>add_file\<close> writes are not files of that tree; what a later run finds on disk is
  an argument of its own.
\<close>

type_synonym tree = "(path \<times> disk_file) list"

record index_result =
  ir_directory :: path
  total_files :: nat
  indexed :: nat
  errors :: nat
  skipped :: nat

definition is_absolute :: "path \<Rightarrow> bool" where
  "is_absolute p = (p \<noteq> [] \<and> hd p = CHR ''/'')"

definition absolute :: "path \<Rightarrow> path \<Rightarrow> path" where
  "absolute cwd p = (if is_absolute p then p else cwd @ ''/'' @ p)"

definition temp_dir :: path where
  "temp_dir = ''data/temp_index''"

definition walk :: "path \<Rightarrow> tree \<Rightarrow> path \<Rightarrow> path list" where
  "walk cwd tr directory =
     (if directory = [] then []
      else map (\<lambda>found. directory @ drop (length (absolute cwd directory)) found)
             (filter (prefix (absolute cwd directory @ ''/'')) (map fst tr)))"

fun select_files ::
  "(string \<Rightarrow> string) \<Rightarrow> file_index \<Rightarrow> disk \<Rightarrow> path \<Rightarrow> bool \<Rightarrow> path list \<Rightarrow> error + path list" where
  "select_files md5 idx d cwd force_update [] = Inr []"
| "select_files md5 idx d cwd force_update (file_path # rest) =
     (case (if force_update then Inr True
            else file_needs_update md5 idx d (absolute cwd file_path)) of
        Inl e \<Rightarrow> Inl e
      | Inr needed \<Rightarrow>
          (case select_files md5 idx d cwd force_update rest of
             Inl e \<Rightarrow> Inl e
           | Inr chosen \<Rightarrow> Inr (if needed then file_path # chosen else chosen)))"

definition clear_temp :: "path \<Rightarrow> tree \<Rightarrow> tree" where
  "clear_temp cwd tr = filter (\<lambda>entry. dirname (fst entry) \<noteq> absolute cwd temp_dir) tr"

record staging =
  staged :: "(string \<times> path) list"
  st_tree :: tree
  st_errors :: nat

definition stage_file :: "path \<Rightarrow> staging \<Rightarrow> path \<Rightarrow> staging" where
  "stage_file cwd st file_path =
     (let filename = basename file_path in
      case map_of (staged st) filename of
        None \<Rightarrow> st\<lparr>staged := staged st @ [(filename, file_path)]\<rparr>
      | Some target \<Rightarrow>
          (case map_of (st_tree st) (absolute cwd file_path) of
             None \<Rightarrow> st\<lparr>st_errors := st_errors st + 1\<rparr>
           | Some src \<Rightarrow>
               if readable src \<and> is_absolute target \<and> target \<noteq> absolute cwd file_path
                  \<and> map_of (st_tree st) target \<noteq> None
               then st\<lparr>st_tree := dict_set target src (st_tree st)\<rparr>
               else st\<lparr>st_errors := st_errors st + 1\<rparr>))"

definition temp_view :: "staging \<Rightarrow> string \<rightharpoonup> disk_file" where
  "temp_view st filename =
     (case map_of (staged st) filename of
        None \<Rightarrow> None
      | Some target \<Rightarrow> if is_absolute target then map_of (st_tree st) target else None)"

definition update_index ::
  "(string \<Rightarrow> string) \<Rightarrow> disk \<Rightarrow> real \<Rightarrow> path \<Rightarrow> path list \<Rightarrow> file_index callback" where
  "update_index md5 d now cwd files_to_index job_info idx =
     (case job_result job_info of
        None \<Rightarrow> (idx, None)
      | Some result \<Rightarrow>
          if job_status job_info = Completed
          then (case List.find (\<lambda>file_path. basename file_path = job_filename job_info)
                       files_to_index of
                  None \<Rightarrow> (idx, None)
                | Some file_path \<Rightarrow>
                    (case add_file md5 d now idx (absolute cwd file_path) result of
                       Inl e \<Rightarrow> (idx, Some ''FileNotFoundError'')
                     | Inr idx' \<Rightarrow> (idx', None)))
          else (idx, None))"

definition index_directory ::
  "(string \<Rightarrow> string) \<Rightarrow> ((string \<rightharpoonup> disk_file) \<Rightarrow> handlers) \<Rightarrow>
   (string list \<Rightarrow> string list) \<Rightarrow> (nat \<Rightarrow> nat list) \<Rightarrow> real \<Rightarrow> path \<Rightarrow>
   tree \<Rightarrow> file_index \<Rightarrow> path \<Rightarrow> bool \<Rightarrow> error + (index_result \<times> file_index \<times> tree)" where
  "index_directory md5 open_handlers listdir sched now cwd tr idx directory force_update =
     (let file_paths = walk cwd tr directory in
      case select_files md5 idx (map_of tr) cwd force_update file_paths of
        Inl e \<Rightarrow> Inl e
      | Inr files_to_index \<Rightarrow>
          let skipped_count = length file_paths - length files_to_index in
          if files_to_index = []
          then Inr (\<lparr>ir_directory = directory, total_files = length file_paths, indexed = 0,
                     errors = 0, skipped = skipped_count\<rparr>, idx, tr)
          else
            let st = foldl (stage_file cwd)
                       \<lparr>staged = [], st_tree = clear_temp cwd tr, st_errors = 0\<rparr> files_to_index;
                listing = filter (\<lambda>filename. temp_view st filename \<noteq> None)
                            (listdir (map fst (staged st)));
                out = process_directory (open_handlers (temp_view st)) listing
                        (Some (update_index md5 (map_of (st_tree st)) now cwd files_to_index))
                        sched idx
            in case run_raised out of
                 Some e \<Rightarrow> Inl FileNotFoundError
               | None \<Rightarrow>
                   Inr (\<lparr>ir_directory = directory, total_files = length file_paths,
                         indexed = count_status Completed (run_jobs out),
                         errors = st_errors st + count_status Failed (run_jobs out),
                         skipped = skipped_count\<rparr>,
                        run_state out, st_tree st))"

text \<open>
  Two calls of \<open>index_directory\<close> in succession on one builder, both without
  \<open>force_update\<close>: the second runs on the index the first one left and on the files
  \<open>tr2\<close> that are on disk by then. The value is the pair of the two summaries.
\<close>

definition index_twice ::
  "(string \<Rightarrow> string) \<Rightarrow> ((string \<rightharpoonup> disk_file) \<Rightarrow> handlers) \<Rightarrow>
   (string list \<Rightarrow> string list) \<Rightarrow> (nat \<Rightarrow> nat list) \<Rightarrow> real \<Rightarrow> real \<Rightarrow> path \<Rightarrow>
   tree \<Rightarrow> tree \<Rightarrow> file_index \<Rightarrow> path \<Rightarrow> error + (index_result \<times> index_result)" where
  "index_twice md5 open_handlers listdir sched now1 now2 cwd tr tr2 idx directory =
     (case index_directory md5 open_handlers listdir sched now1 cwd tr idx directory False of
        Inl e \<Rightarrow> Inl e
      | Inr (res1, idx1, tr1) \<Rightarrow>
          (case index_directory md5 open_handlers listdir sched now2 cwd tr2 idx1 directory False of
             Inl e \<Rightarrow> Inl e
           | Inr (res2, idx2, tr2') \<Rightarrow> Inr (res1, res2)))"


text \<open>The digest and the files of the worked examples.\<close>

definition example_digest :: "string \<Rightarrow> string" where
  "example_digest s = s"

definition example_info :: extraction_result where
  "example_info = \<lparr>res_filename = ''f.txt'', res_content = ''x'',
                    res_type = Some ''text'', res_metadata = None\<rparr>"


definition plain_file :: "string \<Rightarrow> disk_file" where
  "plain_file s = \<lparr>readable = True, data = s, mtime = 1\<rparr>"

definition example_index :: file_index where
  "example_index =
     projr (add_file example_digest [''/a/f.txt'' \<mapsto> plain_file ''x''] 0
              (create_empty_index 0) ''/a/f.txt'' example_info)"


definition fox_content :: string where
  "fox_content = replicate 50 CHR ''x'' @ ''fox'' @ replicate 47 CHR ''y'' @ ''jumps''"

definition text_doc :: "int \<Rightarrow> string \<Rightarrow> document" where
  "text_doc i s = \<lparr>doc_id = Some (IntId i), doc_filename = [], doc_content = Text s\<rparr>"

definition alpha_retriever :: keyword_retriever where
  "alpha_retriever =
     foldl add_document empty_retriever
       [text_doc 1 ''alpha beta'', text_doc 2 ''beta gamma'', text_doc 3 ''alpha alpha gamma'']"

definition tie_retriever :: keyword_retriever where
  "tie_retriever = foldl add_document empty_retriever [text_doc 1 ''a'', text_doc 2 ''b'', text_doc 3 ''c'']"

definition twin_retriever :: keyword_retriever where
  "twin_retriever = foldl add_document empty_retriever [text_doc 1 ''alpha'', text_doc 1 ''beta'']"

definition solo_retriever :: keyword_retriever where
  "solo_retriever = add_document empty_retriever (text_doc 1 ''alpha alpha'')"


definition in_order :: "nat \<Rightarrow> nat list" where
  "in_order K = [0 ..< K]"



definition plain_handlers :: "(string \<rightharpoonup> disk_file) \<Rightarrow> handlers" where
  "plain_handlers view =
     \<lparr>read_text = (\<lambda>filename. case view filename of
                      None \<Rightarrow> Inl ''FileNotFoundError''
                    | Some f \<Rightarrow> if readable f then Inr (data f) else Inl ''PermissionError''),
      read_json = (\<lambda>filename. case view filename of
                      None \<Rightarrow> Inl ''FileNotFoundError''
                    | Some f \<Rightarrow> if readable f then Inr (data f) else Inl ''PermissionError''),
      read_csv = (\<lambda>filename. Inr []),
      pdf_available = False,
      docx_available = False,
      extract_text_from_pdf = (\<lambda>filename. Inr []),
      extract_text_from_docx = (\<lambda>filename. Inr []),
      get_document_metadata = (\<lambda>filename. Inr [])\<rparr>"

definition creation_order :: "string list \<Rightarrow> string list" where
  "creation_order names = names"

definition odd_tree :: tree where
  "odd_tree = [(''/d/a.xyz'', plain_file ''x'')]"

definition txt_tree :: tree where
  "txt_tree = [(''/a/f.txt'', plain_file ''x'')]"

definition example_record :: file_record where
  "example_record =
     \<lparr>rec_path = ''/a/f.txt'', rec_filename = ''f.txt'', rec_hash = Md5Hex ''x'',
      rec_last_indexed = 0, rec_type = ''text'', rec_size = 1, rec_metadata = []\<rparr>"

definition sibling_tree :: tree where
  "sibling_tree = [(''/a/g.txt'', plain_file ''y'')]"

definition data_tree :: tree where
  "data_tree = [(''/w/data/f.txt'', plain_file ''x'')]"

definition data_tree_later :: tree where
  "data_tree_later =
     [(''/w/data/f.txt'', plain_file ''x''),
      (''/w/data/file_index.json'', plain_file ''{}''),
      (''/w/data/temp_index/f.txt'', plain_file ''x'')]"

definition home_tree :: tree where
  "home_tree = [(''/w/a/f.txt'', plain_file ''x'')]"


section \<open>Properties of the file index\<close>

lemma save_index_simps:
  "files (save_index now idx) = files idx"
  "directories (save_index now idx) = directories idx"
  by (simp_all add: save_index_def)

lemma dirs_wellformed_empty: "dirs_wellformed (create_empty_index now)"
  by (simp add: dirs_wellformed_def create_empty_index_def)

lemma dirs_wellformed_add:
  assumes wf: "dirs_wellformed idx" and ok: "add_file md5 d now idx p info = Inr idx'"
  shows "dirs_wellformed idx'"
proof -
  let ?a = "abspath p"
  let ?dir = "dirname ?a"
  obtain h f where h: "get_file_hash md5 d ?a = Inr h" and f: "d ?a = Some f"
    using ok by (auto simp: add_file_def Let_def split: sum.splits option.splits)
  define entry where "entry = (case directories idx ?dir of
      None \<Rightarrow> \<lparr>dir_path = ?dir, dir_files = []\<rparr> | Some e \<Rightarrow> e)"
  define entry' where "entry' = (if ?a \<notin> set (dir_files entry)
      then entry\<lparr>dir_files := dir_files entry @ [?a]\<rparr> else entry)"
  have dirs: "directories idx' = (directories idx)(?dir \<mapsto> entry')"
    and fdom: "files idx' ?a \<noteq> None" and fmono: "\<And>q. files idx q \<noteq> None \<Longrightarrow> files idx' q \<noteq> None"
    using ok h f by (auto simp: add_file_def Let_def entry_def entry'_def save_index_def)
  have e_ok: "distinct (dir_files entry) \<and> (\<forall>q \<in> set (dir_files entry). dirname q = ?dir \<and> files idx q \<noteq> None)"
    using wf by (auto simp: entry_def dirs_wellformed_def split: option.splits)
  have e'_ok: "distinct (dir_files entry') \<and> (\<forall>q \<in> set (dir_files entry'). dirname q = ?dir \<and> files idx' q \<noteq> None)"
  proof (cases "?a \<in> set (dir_files entry)")
    case True
    then have "entry' = entry" by (simp add: entry'_def)
    then show ?thesis using e_ok fmono by simp
  next
    case False
    then have "dir_files entry' = dir_files entry @ [?a]" by (simp add: entry'_def)
    then show ?thesis using e_ok fmono fdom False by simp
  qed
  show ?thesis
    unfolding dirs_wellformed_def
  proof (intro allI impI)
    fix dd e assume de: "directories idx' dd = Some e"
    show "distinct (dir_files e) \<and> (\<forall>q\<in>set (dir_files e). dirname q = dd \<and> files idx' q \<noteq> None)"
    proof (cases "dd = ?dir")
      case True
      with de dirs have "e = entry'" by simp
      with e'_ok True show ?thesis by simp
    next
      case False
      with de dirs have "directories idx dd = Some e" by simp
      with wf fmono show ?thesis unfolding dirs_wellformed_def by blast
    qed
  qed
qed

lemma dirs_wellformed_remove:
  assumes wf: "dirs_wellformed idx"
  shows "dirs_wellformed (remove_file now idx p)"
  unfolding dirs_wellformed_def
proof (intro allI impI)
  let ?a = "abspath p"
  let ?dir = "dirname ?a"
  let ?idx' = "remove_file now idx p"
  fix dd e assume de: "directories ?idx' dd = Some e"
  have fl: "files ?idx' = (files idx)(?a := None)"
    by (simp add: remove_file_def Let_def save_index_def)
  show "distinct (dir_files e) \<and> (\<forall>q\<in>set (dir_files e). dirname q = dd \<and> files ?idx' q \<noteq> None)"
  proof (cases "dd = ?dir")
    case True
    then obtain e0 where e0: "directories idx ?dir = Some e0"
      and e: "e = e0\<lparr>dir_files := remove1 ?a (dir_files e0)\<rparr>"
      using de by (auto simp: remove_file_def Let_def save_index_def split: option.splits)
    from wf e0 have "distinct (dir_files e0)"
      and "\<forall>q\<in>set (dir_files e0). dirname q = ?dir \<and> files idx q \<noteq> None"
      unfolding dirs_wellformed_def by blast+
    then show ?thesis using e True fl by auto
  next
    case False
    then have e0: "directories idx dd = Some e"
      using de by (auto simp: remove_file_def Let_def save_index_def split: option.splits)
    from wf e0 have "distinct (dir_files e)"
      and *: "\<forall>q\<in>set (dir_files e). dirname q = dd \<and> files idx q \<noteq> None"
      unfolding dirs_wellformed_def by blast+
    moreover have "\<forall>q\<in>set (dir_files e). q \<noteq> ?a" using * False by auto
    ultimately show ?thesis using fl by auto
  qed
qed

lemma dirs_wellformed_clear: "dirs_wellformed (clear_index now)"
  by (simp add: dirs_wellformed_def clear_index_def create_empty_index_def save_index_def)

lemma reachable_wellformed: "reachable md5 idx \<Longrightarrow> dirs_wellformed idx"
  by (induction rule: reachable.induct)
     (simp_all add: dirs_wellformed_empty dirs_wellformed_add dirs_wellformed_remove dirs_wellformed_clear)

lemma wellformed_consistent: "dirs_wellformed idx \<Longrightarrow> index_consistent idx"
  unfolding dirs_wellformed_def index_consistent_def by blast

lemma remove_file_drops_record: "files (remove_file now idx p) (abspath p) = None"
  by (simp add: remove_file_def Let_def save_index_def)

lemma remove_file_drops_listing:
  assumes wf: "dirs_wellformed idx" and de: "directories (remove_file now idx p) dd = Some e"
  shows "abspath p \<notin> set (dir_files e)"
proof -
  have "dirs_wellformed (remove_file now idx p)" using wf by (rule dirs_wellformed_remove)
  with de have "\<forall>q\<in>set (dir_files e). files (remove_file now idx p) q \<noteq> None"
    unfolding dirs_wellformed_def by blast
  then show ?thesis using remove_file_drops_record[of now idx p] by auto
qed

lemma add_file_example:
  "add_file example_digest [''/a/f.txt'' \<mapsto> plain_file ''x''] 0
     (create_empty_index 0) ''/a/f.txt'' example_info = Inr example_index"
  by (simp add: example_index_def add_file_def get_file_hash_def abspath_def plain_file_def Let_def)


lemma reachable_example_index: "reachable example_digest example_index"
  by (rule reach_add [OF reach_empty add_file_example])

text \<open>
  C10. A path that has a record in the index and no file on disk: \<open>open\<close> fails,
  the bare \<open>except\<close> asks for the modification time, \<open>os.path.getmtime\<close> raises, and
  \<open>file_needs_update\<close> raises with it instead of returning a verdict.
\<close>

theorem file_needs_update_raises_when_file_gone:
  assumes "files idx (abspath p) = Some r" and "d (abspath p) = None"
  shows "file_needs_update md5 idx d p = Inl FileNotFoundError"
  using assms by (simp add: file_needs_update_def get_file_hash_def)

theorem file_needs_update_raises_when_file_gone_witness:
  "files example_index (abspath ''/a/f.txt'') \<noteq> None \<and>
   Map.empty (abspath ''/a/f.txt'') = (None :: disk_file option) \<and>
   file_needs_update example_digest example_index Map.empty ''/a/f.txt'' = Inl FileNotFoundError"
proof -
  have rec: "files example_index (abspath ''/a/f.txt'') \<noteq> None"
    by (simp add: example_index_def add_file_def get_file_hash_def abspath_def plain_file_def
          save_index_def Let_def)
  then obtain r where r: "files example_index (abspath ''/a/f.txt'') = Some r" by blast
  have gone: "Map.empty (abspath ''/a/f.txt'') = (None :: disk_file option)" by simp
  from file_needs_update_raises_when_file_gone [OF r gone, of example_digest] rec
  show ?thesis by simp
qed

text \<open>
  C8. In every index that \<open>add_file\<close>, \<open>remove_file\<close> and \<open>clear_index\<close> can
  produce from the empty one, each path listed in a directory entry has a record in
  the file map; and \<open>remove_file\<close> on such an index deletes the record of the path
  and leaves the path in no directory entry.
\<close>

theorem directory_entries_have_records:
  assumes "reachable md5 idx"
  shows "index_consistent idx \<and>
         files (remove_file now idx p) (abspath p) = None \<and>
         (\<forall>dd e. directories (remove_file now idx p) dd = Some e \<longrightarrow> abspath p \<notin> set (dir_files e))"
proof -
  have wf: "dirs_wellformed idx" using assms by (rule reachable_wellformed)
  then have "index_consistent idx" by (rule wellformed_consistent)
  moreover have "files (remove_file now idx p) (abspath p) = None"
    by (rule remove_file_drops_record)
  moreover have "\<forall>dd e. directories (remove_file now idx p) dd = Some e \<longrightarrow> abspath p \<notin> set (dir_files e)"
    using remove_file_drops_listing [OF wf] by blast
  ultimately show ?thesis by blast
qed

theorem directory_entries_have_records_witness:
  "reachable example_digest example_index \<and>
   index_consistent example_index \<and>
   files example_index ''/a/f.txt'' \<noteq> None \<and>
   files (remove_file 1 example_index ''/a/f.txt'') (abspath ''/a/f.txt'') = None \<and>
   directories (remove_file 1 example_index ''/a/f.txt'') ''/a'' =
     Some \<lparr>dir_path = ''/a'', dir_files = []\<rparr>"
proof -
  have "files example_index ''/a/f.txt'' \<noteq> None"
    by (simp add: example_index_def add_file_def get_file_hash_def abspath_def plain_file_def
          save_index_def Let_def)
  moreover have "directories (remove_file 1 example_index ''/a/f.txt'') ''/a'' =
     Some \<lparr>dir_path = ''/a'', dir_files = []\<rparr>"
    by (simp add: example_index_def add_file_def get_file_hash_def abspath_def plain_file_def
          save_index_def remove_file_def dirname_def create_empty_index_def Let_def)
  ultimately show ?thesis
    using directory_entries_have_records [OF reachable_example_index, of 1 "''/a/f.txt''"]
      reachable_example_index by simp
qed




section \<open>Properties of chunking\<close>

lemma find_break_in_range:
  "0 \<le> lo \<Longrightarrow> i < int (length t) \<Longrightarrow>
   \<exists>b. find_break t i lo = Inr b \<and> (case b of None \<Rightarrow> True | Some j \<Rightarrow> lo < j \<and> j \<le> i)"
proof (induction t i lo rule: find_break.induct)
  case (1 t i lo)
  show ?case
  proof (cases "i \<le> lo")
    case True
    then show ?thesis by (simp add: find_break.simps)
  next
    case False
    with "1.prems" have idx: "py_index t i = Inr (t ! nat i)"
      by (simp add: py_index_def)
    show ?thesis
    proof (cases "is_break (t ! nat i)")
      case True
      with False idx show ?thesis by (simp add: find_break.simps [of t i])
    next
      case nb: False
      from "1.IH" [OF False idx nb] "1.prems"
      obtain b where b: "find_break t (i - 1) lo = Inr b"
        and r: "case b of None \<Rightarrow> True | Some j \<Rightarrow> lo < j \<and> j \<le> i - 1"
        by auto
      from r have "case b of None \<Rightarrow> True | Some j \<Rightarrow> lo < j \<and> j \<le> i"
        by (cases b) auto
      with False idx nb b show ?thesis by (simp add: find_break.simps [of t i])
    qed
  qed
qed

lemma chunk_loop_default_never_returns:
  assumes ret: "chunk_loop text chunk_size overlap start0 chunks = Some y"
  shows "\<not> (chunk_size = 1000 \<and> overlap = 200 \<and> - 200 \<le> start0 \<and> start0 < int (length text))"
proof (rule chunk_loop.raw_induct
    [where P = "\<lambda>t cs ov st ch y. \<not> (cs = 1000 \<and> ov = 200 \<and> - 200 \<le> st \<and> st < int (length t))",
     OF _ ret])
  fix loop :: "string \<Rightarrow> int \<Rightarrow> int \<Rightarrow> int \<Rightarrow> string list \<Rightarrow> (error + string list) option"
  fix t chunk_size overlap start0 chunks y
  assume IH: "\<And>t cs ov st ch y. loop t cs ov st ch = Some y \<Longrightarrow>
                \<not> (cs = 1000 \<and> ov = 200 \<and> - 200 \<le> st \<and> st < int (length t))"
  assume step: "(if start0 < int (length t) then
        (let end0 = min (start0 + chunk_size) (int (length t)) in
         case (if end0 < int (length t)
               then find_break t end0 (max (end0 - 100) start0)
               else Inr None) of
           Inl e \<Rightarrow> Some (Inl e)
         | Inr b \<Rightarrow>
             (let end1 = (case b of None \<Rightarrow> end0 | Some i \<Rightarrow> i + 1)
              in loop t chunk_size overlap (end1 - overlap)
                   (chunks @ [py_slice t start0 end1])))
      else Some (Inr chunks)) = Some y"
  show "\<not> (chunk_size = 1000 \<and> overlap = 200 \<and> - 200 \<le> start0 \<and> start0 < int (length t))"
  proof
    assume inv: "chunk_size = 1000 \<and> overlap = 200 \<and> - 200 \<le> start0 \<and> start0 < int (length t)"
    then have cs: "chunk_size = 1000" and ov: "overlap = 200"
      and lo: "- 200 \<le> start0" and hi: "start0 < int (length t)" by simp_all
    define end0 where "end0 = min (start0 + 1000) (int (length t))"
    define r where "r = (if end0 < int (length t)
               then find_break t end0 (max (end0 - 100) start0) else Inr None)"
    have "\<exists>b. r = Inr b \<and> (case b of None \<Rightarrow> True | Some j \<Rightarrow> 0 < j \<and> j \<le> end0 \<and> end0 < int (length t))"
    proof (cases "end0 < int (length t)")
      case True
      then have "0 \<le> max (end0 - 100) start0" using lo by (simp add: end0_def)
      from find_break_in_range [OF this True]
      obtain b where "find_break t end0 (max (end0 - 100) start0) = Inr b"
        and "case b of None \<Rightarrow> True | Some j \<Rightarrow> max (end0 - 100) start0 < j \<and> j \<le> end0"
        by blast
      with True lo show ?thesis by (cases b) (auto simp: r_def end0_def)
    next
      case False
      then show ?thesis by (simp add: r_def)
    qed
    then obtain b where rb: "r = Inr b"
      and bb: "case b of None \<Rightarrow> True | Some j \<Rightarrow> 0 < j \<and> j \<le> end0 \<and> end0 < int (length t)"
      by blast
    define end1 where "end1 = (case b of None \<Rightarrow> end0 | Some i \<Rightarrow> i + 1)"
    have e1: "0 \<le> end1 \<and> end1 \<le> int (length t)"
      using bb lo hi by (cases b) (auto simp: end1_def end0_def)
    have "(case r of Inl e \<Rightarrow> Some (Inl e)
           | Inr b \<Rightarrow> loop t 1000 200 ((case b of None \<Rightarrow> end0 | Some i \<Rightarrow> i + 1) - 200)
                (chunks @ [py_slice t start0 (case b of None \<Rightarrow> end0 | Some i \<Rightarrow> i + 1)])) = Some y"
      using step [unfolded cs ov Let_def, folded end0_def, folded r_def] hi by simp
    then have "loop t 1000 200 (end1 - 200) (chunks @ [py_slice t start0 end1]) = Some y"
      by (simp add: rb end1_def)
    from IH [OF this] e1 show False by simp
  qed
qed

text \<open>
  C9. With the default parameters the loop never ends on a non-empty text: after
  every chunk \<open>start = end - overlap\<close> is still below \<open>len(text)\<close>, also after the
  chunk that reaches the end of the text. So \<open>chunk_document\<close> returns for no
  non-empty input; it returns (the empty list) for the empty text only.
\<close>

theorem chunk_document_default_diverges:
  assumes "text \<noteq> []"
  shows "chunk_document text 1000 200 = None"
proof (cases "chunk_document text 1000 200")
  case None
  then show ?thesis .
next
  case (Some y)
  then have "chunk_loop text 1000 200 0 [] = Some y" by (simp add: chunk_document_def)
  from chunk_loop_default_never_returns [OF this] assms show ?thesis by simp
qed

theorem chunk_document_default_diverges_witness:
  "''a'' \<noteq> [] \<and> chunk_document ''a'' 1000 200 = None"
  using chunk_document_default_diverges [of "''a''"] by simp

lemma chunk_document_empty: "chunk_document [] chunk_size overlap = Some (Inr [])"
  by (simp add: chunk_document_def chunk_loop.simps)

section \<open>Properties of snippet extraction\<close>

text \<open>
  C7, at a content of 105 characters: \<open>fox\<close> starts at 50 and \<open>jumps\<close> at 100.
  The window scored for the hit \<open>fox\<close> is \<open>[0, 103)\<close> and counts both hits, so it
  wins (the window of \<open>jumps\<close>, \<open>[50, 105)\<close>, also counts two, and comes later). The
  text returned is \<open>content[0:100]\<close>, not the scored window: it ends before
  \<open>jumps\<close>. The window of radius 50 around the hit \<open>jumps\<close> holds both terms.
\<close>

theorem snippet_loses_counted_hit:
  "term_positions (lower (flatten_newlines fox_content)) [''fox'', ''jumps''] = [(50, 3), (100, 5)] \<and>
   terms_in_snippet [(50, 3), (100, 5)] 0 0 103 = 2 \<and>
   best_window 105 50 [(50, 3), (100, 5)] = (2, 0) \<and>
   find_relevant_snippet fox_content [''fox'', ''jumps''] 50 = take 100 fox_content \<and>
   search_snippet fox_content ''fox jumps'' = take 100 fox_content @ ''...'' \<and>
   py_find (take 100 fox_content) ''jumps'' 0 = None \<and>
   py_find (take 55 (drop 50 fox_content)) ''fox'' 0 = Some 0 \<and>
   py_find (take 55 (drop 50 fox_content)) ''jumps'' 0 = Some 50"
  by code_simp

lemma snippet_fallback_example:
  "search_snippet ''The quick brown fox sat.'' ''zebra'' = ''The quick brown fox sat.''"
  by code_simp

section \<open>Properties of keyword retrieval\<close>

subsection \<open>Dictionaries as association lists\<close>

lemma map_of_dict_set: "map_of (dict_set k v ps) = (map_of ps)(k \<mapsto> v)"
  by (induction ps) (auto simp: fun_eq_iff)

lemma keys_dict_set:
  "map fst (dict_set k v ps) = (if k \<in> fst ` set ps then map fst ps else map fst ps @ [k])"
  by (induction ps) auto

lemma dict_set_fresh: "k \<notin> fst ` set ps \<Longrightarrow> dict_set k v ps = ps @ [(k, v)]"
  by (induction ps) auto

lemma dict_set_twice: "dict_set k v (dict_set k w ps) = dict_set k v ps"
  by (induction ps) auto

subsection \<open>What add_document writes into the index\<close>

lemma count_in_dict_set: "count_in (dict_set did n e) did = n"
  by (simp add: count_in_def map_of_dict_set)

lemma entry_of_count_token:
  "entry_of (count_token did idx x) t =
     (if t = x then dict_set did (count_in (entry_of idx x) did + 1) (entry_of idx x)
      else entry_of idx t)"
  by (simp add: entry_of_def count_token_def count_in_def map_of_dict_set Let_def)

lemma entry_of_count_tokens:
  "entry_of (foldl (count_token did) idx ts) t =
     (if t \<in> set ts
      then dict_set did (count_in (entry_of idx t) did + count_list ts t) (entry_of idx t)
      else entry_of idx t)"
proof (induction ts rule: rev_induct)
  case Nil
  show ?case by simp
next
  case (snoc x ts)
  show ?case
  proof (cases "t = x")
    case True
    show ?thesis
    proof (cases "x \<in> set ts")
      case True
      with \<open>t = x\<close> snoc show ?thesis
        by (simp add: entry_of_count_token count_in_dict_set dict_set_twice)
    next
      case False
      with \<open>t = x\<close> snoc show ?thesis
        by (simp add: entry_of_count_token)
    qed
  next
    case False
    with snoc show ?thesis by (simp add: entry_of_count_token)
  qed
qed


subsection \<open>The index of a retriever built by add_document\<close>

lemma well_indexed_empty: "well_indexed empty_retriever"
  by (simp add: well_indexed_def empty_retriever_def containing_def entry_of_def)

lemma documents_add_document:
  "documents (add_document r d) =
     documents r @ [d\<lparr>doc_id := Some (case doc_id d of None \<Rightarrow> IntId (int (length (documents r))) | Some i \<Rightarrow> i)\<rparr>]"
  by (simp add: add_document_def Let_def)

lemma index_add_document:
  "index (add_document r d) =
     foldl (count_token (case doc_id d of None \<Rightarrow> IntId (int (length (documents r))) | Some i \<Rightarrow> i))
       (index r) (tokens_of d)"
  by (simp add: add_document_def Let_def tokens_of_def)

lemma tokens_of_set_id [simp]: "tokens_of (d\<lparr>doc_id := x\<rparr>) = tokens_of d"
  by (simp add: tokens_of_def content_text_def)

lemma well_indexed_add:
  assumes wf: "well_indexed r"
    and fresh: "distinct (map doc_id (documents (add_document r d)))"
  shows "well_indexed (add_document r d)"
proof -
  define did where "did = (case doc_id d of None \<Rightarrow> IntId (int (length (documents r))) | Some i \<Rightarrow> i)"
  define d' where "d' = d\<lparr>doc_id := Some did\<rparr>"
  have docs: "documents (add_document r d) = documents r @ [d']"
    by (simp add: documents_add_document did_def d'_def)
  have idx: "index (add_document r d) = foldl (count_token did) (index r) (tokens_of d)"
    by (simp add: index_add_document did_def)
  have id': "doc_id d' = Some did" and tok': "tokens_of d' = tokens_of d"
    by (simp_all add: d'_def)
  from fresh docs id' have new: "Some did \<notin> doc_id ` set (documents r)"
    by auto
  from wf have ids: "\<forall>x \<in> set (documents r). doc_id x \<noteq> None"
    and ent: "\<And>t. entry_of (index r) t = map (\<lambda>x. (the (doc_id x), term_frequency t x)) (containing r t)"
    by (simp_all add: well_indexed_def)
  have notin: "did \<notin> fst ` set (entry_of (index r) t)" for t
  proof
    assume "did \<in> fst ` set (entry_of (index r) t)"
    then obtain x where x: "x \<in> set (documents r)" and "did = the (doc_id x)"
      by (auto simp: ent containing_def)
    with ids have "doc_id x = Some did" by auto
    with x new show False by (metis imageI)
  qed
  have cont: "containing (add_document r d) t =
      containing r t @ (if t \<in> set (tokens_of d) then [d'] else [])" for t
    by (simp add: containing_def docs tok')
  have "entry_of (index (add_document r d)) t =
      map (\<lambda>x. (the (doc_id x), term_frequency t x)) (containing (add_document r d) t)" for t
  proof (cases "t \<in> set (tokens_of d)")
    case True
    have "map_of (entry_of (index r) t) did = None"
      using notin [of t] by (simp add: map_of_eq_None_iff)
    then have zero: "count_in (entry_of (index r) t) did = 0"
      by (simp add: count_in_def)
    have "entry_of (index (add_document r d)) t =
        entry_of (index r) t @ [(did, count_list (tokens_of d) t)]"
      using True notin [of t] by (simp add: idx entry_of_count_tokens zero dict_set_fresh)
    then show ?thesis
      using True by (simp add: cont ent id' term_frequency_def tok')
  next
    case False
    then show ?thesis by (simp add: idx entry_of_count_tokens cont ent)
  qed
  moreover have "\<forall>x \<in> set (documents (add_document r d)). doc_id x \<noteq> None"
    using ids by (simp add: docs id')
  ultimately show ?thesis using fresh by (simp add: well_indexed_def)
qed

lemma well_indexed_foldl:
  "distinct (map doc_id (documents (foldl add_document empty_retriever ds))) \<Longrightarrow>
   well_indexed (foldl add_document empty_retriever ds)"
proof (induction ds rule: rev_induct)
  case Nil
  show ?case by (simp add: well_indexed_empty)
next
  case (snoc d ds)
  let ?r = "foldl add_document empty_retriever ds"
  from snoc.prems have all: "distinct (map doc_id (documents (add_document ?r d)))" by simp
  then have "distinct (map doc_id (documents ?r))"
    by (simp add: documents_add_document)
  then have "well_indexed ?r" by (rule snoc.IH)
  from well_indexed_add [OF this all] show ?case by simp
qed


subsection \<open>The scores dictionary\<close>

lemma accumulate_append: "accumulate sc (ps @ qs) = accumulate (accumulate sc ps) qs"
  by (simp add: accumulate_def)

lemma accumulate_snoc: "accumulate sc (ps @ [(k, x)]) = add_score (accumulate sc ps) k x"
  by (simp add: accumulate_def)

lemma inner_loop_accumulate:
  "foldl (\<lambda>sc (did, count). add_score sc did (g did)) sc entry =
   accumulate sc (map (\<lambda>(did, c). (did, g did)) entry)"
  by (induction entry arbitrary: sc) (auto simp: accumulate_def)

lemma score_loop_accumulate:
  "foldl (\<lambda>scores token.
              case map_of (index r) token of
                None \<Rightarrow> scores
              | Some entry \<Rightarrow>
                  foldl (\<lambda>sc (did, count). add_score sc did (calculate_score r [token] did))
                        scores entry)
         sc q = accumulate sc (increments r q)"
proof (induction q arbitrary: sc)
  case Nil
  show ?case by (simp add: increments_def accumulate_def)
next
  case (Cons t q)
  have inc: "increments r (t # q) =
      map (\<lambda>(did, c). (did, calculate_score r [t] did)) (entry_of (index r) t) @ increments r q"
    by (simp add: increments_def)
  show ?case
  proof (cases "map_of (index r) t")
    case None
    then have "entry_of (index r) t = []" by (simp add: entry_of_def)
    with None Cons show ?thesis by (simp add: inc)
  next
    case (Some entry)
    then have "entry_of (index r) t = entry" by (simp add: entry_of_def)
    with Some Cons show ?thesis
      by (simp add: inc accumulate_append inner_loop_accumulate)
  qed
qed

lemma score_all_accumulate: "score_all r q = accumulate [] (increments r q)"
  by (simp add: score_all_def score_loop_accumulate)

lemma first_occurrences_snoc:
  "first_occurrences (xs @ [x]) =
     (if x \<in> set xs then first_occurrences xs else first_occurrences xs @ [x])"
  by (simp add: first_occurrences_def)

lemma set_first_occurrences [simp]: "set (first_occurrences xs) = set xs"
  by (simp add: first_occurrences_def)

lemma distinct_first_occurrences [simp]: "distinct (first_occurrences xs)"
  by (simp add: first_occurrences_def)

lemma keys_accumulate: "map fst (accumulate [] ps) = first_occurrences (map fst ps)"
proof (induction ps rule: rev_induct)
  case Nil
  show ?case by (simp add: accumulate_def first_occurrences_def)
next
  case (snoc p ps)
  obtain k x where p: "p = (k, x)" by (cases p)
  have "set (map fst (accumulate [] ps)) = fst ` set ps"
    by (simp add: snoc.IH)
  then have mem: "k \<in> fst ` set (accumulate [] ps) \<longleftrightarrow> k \<in> fst ` set ps"
    by simp
  show ?case
    by (simp add: p accumulate_snoc add_score_def keys_dict_set mem snoc.IH first_occurrences_snoc)
qed

lemma value_accumulate:
  "map_of (accumulate [] ps) k =
     (if k \<in> fst ` set ps then Some (sum_list (map snd (filter (\<lambda>p. fst p = k) ps))) else None)"
proof (induction ps arbitrary: k rule: rev_induct)
  case Nil
  show ?case by (simp add: accumulate_def)
next
  case (snoc p ps)
  obtain k' x where p: "p = (k', x)" by (cases p)
  have none: "filter (\<lambda>p. fst p = j) ps = []" if "j \<notin> fst ` set ps" for j
    using that by (auto simp: filter_empty_conv)
  show ?case
  proof (cases "k = k'")
    case True
    show ?thesis
      by (cases "k' \<in> fst ` set ps")
         (simp_all add: p True accumulate_snoc add_score_def map_of_dict_set snoc.IH none)
  next
    case False
    then show ?thesis
      by (simp add: p accumulate_snoc add_score_def map_of_dict_set snoc.IH)
  qed
qed

lemma calculate_score_single:
  "calculate_score r [t] did =
     (case map_of (entry_of (index r) t) did of
        None \<Rightarrow> 0
      | Some tf \<Rightarrow> real tf * ln (real (length (documents r)) / real (length (entry_of (index r) t))))"
  by (simp add: calculate_score_def entry_of_def split: option.splits)


subsection \<open>Scores in terms of term frequencies\<close>

lemma key_inj:
  assumes "well_indexed r"
  shows "inj_on key_of (set (documents r))"
proof (rule inj_onI)
  fix x y assume x: "x \<in> set (documents r)" and y: "y \<in> set (documents r)"
    and eq: "key_of x = key_of y"
  from assms x y have "doc_id x \<noteq> None" "doc_id y \<noteq> None"
    by (auto simp: well_indexed_def)
  with eq have "doc_id x = doc_id y" by (auto simp: key_of_def)
  moreover from assms have "inj_on doc_id (set (documents r))"
    by (simp add: well_indexed_def distinct_map)
  ultimately show "x = y" using x y by (auto dest: inj_onD)
qed

lemma distinct_documents: "well_indexed r \<Longrightarrow> distinct (documents r)"
  by (simp add: well_indexed_def distinct_map)

lemma entry_well_indexed:
  "well_indexed r \<Longrightarrow>
   entry_of (index r) t = map (\<lambda>d. (key_of d, term_frequency t d)) (containing r t)"
  by (simp add: well_indexed_def key_of_def)

lemma map_of_keyed:
  "inj_on k (set xs) \<Longrightarrow> d \<in> set xs \<Longrightarrow> map_of (map (\<lambda>x. (k x, g x)) xs) (k d) = Some (g d)"
  by (induction xs) (auto simp: inj_on_def)

lemma containing_subset: "set (containing r t) \<subseteq> set (documents r)"
  by (auto simp: containing_def)

lemma increments_well_indexed:
  assumes wf: "well_indexed r"
  shows "increments r q =
     concat (map (\<lambda>t. map (\<lambda>d. (key_of d, real (term_frequency t d) * idf r t)) (containing r t)) q)"
proof -
  have "map (\<lambda>(did, c). (did, calculate_score r [t] did)) (entry_of (index r) t) =
        map (\<lambda>d. (key_of d, real (term_frequency t d) * idf r t)) (containing r t)" for t
  proof -
    have inj: "inj_on key_of (set (containing r t))"
      using key_inj [OF wf] containing_subset by (rule inj_on_subset)
    have "calculate_score r [t] (key_of d) = real (term_frequency t d) * idf r t"
      if "d \<in> set (containing r t)" for d
      using that map_of_keyed [OF inj that, of "term_frequency t"]
      by (simp add: calculate_score_single entry_well_indexed [OF wf] idf_def)
    then show ?thesis
      by (simp add: entry_well_indexed [OF wf])
  qed
  then show ?thesis by (simp add: increments_def)
qed

lemma keys_increments:
  "well_indexed r \<Longrightarrow> map fst (increments r q) = map key_of (concat (map (containing r) q))"
  by (simp add: increments_well_indexed map_concat comp_def)

lemma first_occurrences_map:
  "inj_on f (set xs) \<Longrightarrow> first_occurrences (map f xs) = map f (first_occurrences xs)"
proof (induction xs rule: rev_induct)
  case Nil
  show ?case by (simp add: first_occurrences_def)
next
  case (snoc x xs)
  then have inj: "inj_on f (set xs)" and mem: "f x \<in> f ` set xs \<longleftrightarrow> x \<in> set xs"
    by (auto simp: inj_on_def)
  with snoc.IH show ?case by (simp add: first_occurrences_snoc)
qed

lemma keys_score_all:
  assumes wf: "well_indexed r"
  shows "map fst (score_all r q) = map key_of (encounter_order r q)"
proof -
  have "set (concat (map (containing r) q)) \<subseteq> set (documents r)"
    using containing_subset by auto
  with key_inj [OF wf] have "inj_on key_of (set (concat (map (containing r) q)))"
    by (rule inj_on_subset)
  then show ?thesis
    by (simp add: score_all_accumulate keys_accumulate keys_increments [OF wf]
          first_occurrences_map encounter_order_def)
qed

lemma sum_single:
  "distinct xs \<Longrightarrow> inj_on k (insert d (set xs)) \<Longrightarrow>
   sum_list (map snd (filter (\<lambda>p. fst p = k d) (map (\<lambda>x. (k x, w x)) xs))) =
     (if d \<in> set xs then w d else (0::real))"
  by (induction xs) (auto simp: inj_on_def)

lemma sum_increments:
  assumes wf: "well_indexed r" and d: "d \<in> set (documents r)"
  shows "sum_list (map snd (filter (\<lambda>p. fst p = key_of d) (increments r q))) = tf_idf r q d"
proof -
  have one: "sum_list (map snd (filter (\<lambda>p. fst p = key_of d)
        (map (\<lambda>x. (key_of x, real (term_frequency t x) * idf r t)) (containing r t)))) =
      (if t \<in> set (tokens_of d) then real (term_frequency t d) * idf r t else 0)" for t
  proof -
    have dist: "distinct (containing r t)"
      using distinct_documents [OF wf] by (simp add: containing_def)
    have "insert d (set (containing r t)) \<subseteq> set (documents r)"
      using d containing_subset by auto
    with key_inj [OF wf] have "inj_on key_of (insert d (set (containing r t)))"
      by (rule inj_on_subset)
    from sum_single [OF dist this] d show ?thesis
      by (simp add: containing_def)
  qed
  show ?thesis
    unfolding increments_well_indexed [OF wf] tf_idf_def
    by (induction q) (simp_all add: one)
qed

lemma in_keys_increments:
  assumes wf: "well_indexed r" and d: "d \<in> set (documents r)"
  shows "key_of d \<in> fst ` set (increments r q) \<longleftrightarrow> (\<exists>t \<in> set q. t \<in> set (tokens_of d))"
proof -
  have "fst ` set (increments r q) = key_of ` set (concat (map (containing r) q))"
    using keys_increments [OF wf, of q] by (metis set_map)
  moreover have "key_of d \<in> key_of ` A \<longleftrightarrow> d \<in> A" if "A \<subseteq> set (documents r)" for A
    using key_inj [OF wf] d that by (auto simp: inj_on_def)
  moreover have "set (concat (map (containing r) q)) \<subseteq> set (documents r)"
    using containing_subset by auto
  ultimately show ?thesis using d by (auto simp: containing_def)
qed

lemma score_of_document:
  assumes wf: "well_indexed r" and d: "d \<in> set (documents r)"
  shows "map_of (score_all r q) (key_of d) =
     (if \<exists>t \<in> set q. t \<in> set (tokens_of d) then Some (tf_idf r q d) else None)"
  by (simp add: score_all_accumulate value_accumulate in_keys_increments [OF wf d]
        sum_increments [OF wf d])


subsection \<open>The result of retrieve\<close>

lemma insort_key_map_general:
  "insort_key f (g x) (map g ys) = map g (insort_key (\<lambda>y. f (g y)) x ys)"
  by (induction ys) auto

lemma sort_key_map_general: "sort_key f (map g xs) = map g (sort_key (\<lambda>y. f (g y)) xs)"
  by (induction xs) (auto simp: insort_key_map_general)

lemma insort_key_agree:
  "f x = g x \<Longrightarrow> (\<And>y. y \<in> set ys \<Longrightarrow> f y = g y) \<Longrightarrow> insort_key f x ys = insort_key g x ys"
  by (induction ys) auto

lemma sort_key_agree:
  "(\<And>x. x \<in> set xs \<Longrightarrow> f x = g x) \<Longrightarrow> sort_key f xs = sort_key g xs"
proof (induction xs)
  case Nil
  show ?case by simp
next
  case (Cons x xs)
  then have "sort_key f xs = sort_key g xs" by simp
  moreover have "insort_key f x (sort_key g xs) = insort_key g x (sort_key g xs)"
    by (rule insort_key_agree) (simp_all add: Cons.prems)
  ultimately show ?case by simp
qed

lemma py_prefix_map: "py_prefix (map f xs) k = map f (py_prefix xs k)"
  by (simp add: py_prefix_def take_map)

lemma set_py_prefix: "set (py_prefix xs k) \<subseteq> set xs"
  by (auto simp: py_prefix_def dest: in_set_takeD)

lemma py_prefix_is_prefix: "prefix (py_prefix xs k) xs"
  by (simp add: py_prefix_def take_is_prefix)

lemma length_py_prefix: "0 \<le> k \<Longrightarrow> length (py_prefix xs k) \<le> nat k"
  by (simp add: py_prefix_def)

lemma map_filter_all_some:
  "(\<And>x. x \<in> set xs \<Longrightarrow> f (g x) = Some (h x)) \<Longrightarrow> List.map_filter f (map g xs) = map h xs"
  by (induction xs) (simp_all add: List.map_filter_simps)

lemma set_encounter_order:
  "set (encounter_order r q) = {d \<in> set (documents r). \<exists>t \<in> set q. t \<in> set (tokens_of d)}"
  by (auto simp: encounter_order_def containing_def)

lemma id_to_doc_lookup:
  assumes wf: "well_indexed r" and d: "d \<in> set (documents r)"
  shows "map_of (rev (map (\<lambda>doc. (doc_id doc, doc)) (documents r))) (Some (key_of d)) = Some d"
proof -
  from wf d have some: "Some (key_of d) = doc_id d"
    by (auto simp: well_indexed_def key_of_def)
  from wf have "inj_on doc_id (set (rev (documents r)))"
    by (simp add: well_indexed_def distinct_map)
  from map_of_keyed [OF this, of d "\<lambda>x. x"] d
  show ?thesis by (simp add: some rev_map)
qed

lemma retrieve_characterised:
  assumes wf: "well_indexed r"
  shows "retrieve r query k =
     map (\<lambda>d. (d, tf_idf r (tokenize query) d))
       (py_prefix (sort_key (\<lambda>d. - tf_idf r (tokenize query) d)
                     (encounter_order r (tokenize query))) k)"
proof -
  let ?q = "tokenize query"
  let ?scores = "score_all r ?q"
  let ?sf = "\<lambda>x. - (case map_of ?scores x of None \<Rightarrow> 0 | Some s \<Rightarrow> s)"
  let ?E = "encounter_order r ?q"
  let ?S = "sort_key (\<lambda>d. - tf_idf r ?q d) ?E"
  have E_docs: "d \<in> set (documents r)" and E_match: "\<exists>t \<in> set ?q. t \<in> set (tokens_of d)"
    if "d \<in> set ?E" for d
    using that by (simp_all add: set_encounter_order)
  have sc: "map_of ?scores (key_of d) = Some (tf_idf r ?q d)" if "d \<in> set ?E" for d
    using score_of_document [OF wf E_docs [OF that], of ?q] E_match [OF that] by simp
  have "sort_key ?sf (map fst ?scores) = map key_of (sort_key (\<lambda>d. ?sf (key_of d)) ?E)"
    by (simp add: keys_score_all [OF wf] sort_key_map_general)
  also have "sort_key (\<lambda>d. ?sf (key_of d)) ?E = ?S"
    by (rule sort_key_agree) (simp add: sc)
  finally have ids: "py_prefix (sort_key ?sf (map fst ?scores)) k = map key_of (py_prefix ?S k)"
    by (simp add: py_prefix_map)
  have inE: "d \<in> set ?E" if "d \<in> set (py_prefix ?S k)" for d
    using that set_py_prefix [of ?S k] by auto
  have "retrieve r query k =
      List.map_filter
        (\<lambda>did. case map_of (rev (map (\<lambda>doc. (doc_id doc, doc)) (documents r))) (Some did) of
                  None \<Rightarrow> None
                | Some doc \<Rightarrow> Some (doc, case map_of ?scores did of None \<Rightarrow> 0 | Some s \<Rightarrow> s))
        (map key_of (py_prefix ?S k))"
    by (simp add: retrieve_def Let_def ids)
  also have "\<dots> = map (\<lambda>d. (d, tf_idf r ?q d)) (py_prefix ?S k)"
    by (rule map_filter_all_some)
       (simp add: id_to_doc_lookup [OF wf E_docs [OF inE]] sc [OF inE])
  finally show ?thesis .
qed

lemma sorted_wrt_prefix: "prefix xs ys \<Longrightarrow> sorted_wrt R ys \<Longrightarrow> sorted_wrt R xs"
  by (auto simp: prefix_def sorted_wrt_append)

lemma first_occurrences_distinct: "distinct xs \<Longrightarrow> first_occurrences xs = xs"
  by (simp add: first_occurrences_def distinct_remdups_id)

lemma encounter_order_single:
  assumes wf: "well_indexed r"
  shows "encounter_order r [t] = containing r t"
proof -
  have "distinct (containing r t)"
    using distinct_documents [OF wf] by (simp add: containing_def)
  then show ?thesis by (simp add: encounter_order_def first_occurrences_distinct)
qed

lemma alpha_index:
  "index alpha_retriever =
     [(''alpha'', [(IntId 1, 1), (IntId 3, 2)]),
      (''beta'', [(IntId 1, 1), (IntId 2, 1)]),
      (''gamma'', [(IntId 2, 1), (IntId 3, 1)])]"
  by code_simp

lemma alpha_documents:
  "documents alpha_retriever =
     [text_doc 1 ''alpha beta'', text_doc 2 ''beta gamma'', text_doc 3 ''alpha alpha gamma'']"
  by code_simp

lemma tokenize_alpha: "tokenize ''alpha'' = [''alpha'']"
  by code_simp

lemma tie_index:
  "index tie_retriever = [(''a'', [(IntId 1, 1)]), (''b'', [(IntId 2, 1)]), (''c'', [(IntId 3, 1)])]"
  by code_simp

lemma tie_documents:
  "documents tie_retriever = [text_doc 1 ''a'', text_doc 2 ''b'', text_doc 3 ''c'']"
  by code_simp

lemma twin_index: "index twin_retriever = [(''alpha'', [(IntId 1, 1)]), (''beta'', [(IntId 1, 1)])]"
  by code_simp

lemma twin_documents: "documents twin_retriever = [text_doc 1 ''alpha'', text_doc 1 ''beta'']"
  by code_simp

lemma tokenize_b_a: "tokenize ''b a'' = [''b'', ''a'']"
  by code_simp

subsection \<open>A corpus of one document\<close>

lemma distinct_in_singleton: "distinct xs \<Longrightarrow> set xs \<subseteq> {x} \<Longrightarrow> xs = (if x \<in> set xs then [x] else [])"
proof (induction xs)
  case Nil
  show ?case by simp
next
  case (Cons y ys)
  then have "y = x" and "set ys \<subseteq> {x}" and "x \<notin> set ys" by auto
  then have "ys = []" by (cases ys) auto
  with \<open>y = x\<close> show ?case by simp
qed

lemma py_prefix_single: "py_prefix [x] k = (if 1 \<le> k then [x] else [])"
  by (auto simp: py_prefix_def)

lemma py_prefix_nil: "py_prefix [] k = []"
  by (simp add: py_prefix_def)

text \<open>
  C6, as the code has it. In a corpus of exactly one document the posting list of
  every token of the document has length one, the factor
  \<open>ln(len(documents) / len(index[token]))\<close> is \<open>ln 1 = 0\<close>, and \<open>retrieve\<close> returns
  the document with score 0 when it contains a query token and \<open>top_k \<ge> 1\<close>, and
  nothing otherwise: the score is zero, not the term frequency.
\<close>

theorem single_document_score_is_zero:
  assumes r: "r = add_document empty_retriever d"
    and st: "stored = d\<lparr>doc_id := Some (case doc_id d of None \<Rightarrow> IntId 0 | Some i \<Rightarrow> i)\<rparr>"
  shows "documents r = [stored] \<and>
         (\<forall>t \<in> set (tokens_of d).
             length (entry_of (index r) t) = 1 \<and>
             ln (real (length (documents r)) / real (length (entry_of (index r) t))) = 0) \<and>
         retrieve r query top_k =
           (if (\<exists>t \<in> set (tokenize query). t \<in> set (tokens_of d)) \<and> 1 \<le> top_k
            then [(stored, 0)] else [])"
proof -
  let ?q = "tokenize query"
  have docs: "documents r = [stored]"
    by (cases "doc_id d") (simp_all add: r st documents_add_document empty_retriever_def)
  have "r = foldl add_document empty_retriever [d]" by (simp add: r)
  moreover have "distinct (map doc_id (documents r))" by (simp add: docs)
  ultimately have wf: "well_indexed r" using well_indexed_foldl [of "[d]"] by simp
  have tok: "tokens_of stored = tokens_of d" by (simp add: st)
  have cont: "containing r t = (if t \<in> set (tokens_of d) then [stored] else [])" for t
    by (simp add: containing_def docs tok)
  have len: "length (entry_of (index r) t) = 1" if "t \<in> set (tokens_of d)" for t
    using that by (simp add: entry_well_indexed [OF wf] cont)
  have "(if t \<in> set (tokens_of stored) then real (term_frequency t stored) * idf r t else 0) = 0" for t
    by (simp add: idf_def docs cont tok)
  then have zero: "tf_idf r ?q stored = 0"
    by (simp add: tf_idf_def)
  have E: "encounter_order r ?q =
      (if \<exists>t \<in> set ?q. t \<in> set (tokens_of d) then [stored] else [])"
  proof -
    have "set (encounter_order r ?q) \<subseteq> {stored}"
      by (auto simp: set_encounter_order docs)
    moreover have "distinct (encounter_order r ?q)"
      by (simp add: encounter_order_def)
    ultimately have "encounter_order r ?q =
        (if stored \<in> set (encounter_order r ?q) then [stored] else [])"
      by (rule distinct_in_singleton [rotated])
    then show ?thesis by (simp add: set_encounter_order docs tok)
  qed
  have "retrieve r query top_k =
      (if (\<exists>t \<in> set ?q. t \<in> set (tokens_of d)) \<and> 1 \<le> top_k then [(stored, 0)] else [])"
    by (simp add: retrieve_characterised [OF wf] E py_prefix_single py_prefix_nil zero)
  with docs len show ?thesis by simp
qed

lemma solo_index: "index solo_retriever = [(''alpha'', [(IntId 1, 2)])]"
  by code_simp

lemma solo_documents: "documents solo_retriever = [text_doc 1 ''alpha alpha'']"
  by code_simp

theorem single_document_score_is_zero_witness:
  "solo_retriever = add_document empty_retriever (text_doc 1 ''alpha alpha'') \<and>
   retrieve solo_retriever ''alpha'' 3 = [(text_doc 1 ''alpha alpha'', 0)] \<and>
   ''alpha'' \<in> set (tokens_of (text_doc 1 ''alpha alpha'')) \<and>
   length (entry_of (index solo_retriever) ''alpha'') = 1"
proof -
  have st: "text_doc 1 ''alpha alpha'' = (text_doc 1 ''alpha alpha'')
      \<lparr>doc_id := Some (case doc_id (text_doc 1 ''alpha alpha'') of None \<Rightarrow> IntId 0 | Some i \<Rightarrow> i)\<rparr>"
    by (simp add: text_doc_def)
  have tok: "tokens_of (text_doc 1 ''alpha alpha'') = [''alpha'', ''alpha'']"
    by code_simp
  from single_document_score_is_zero [OF solo_retriever_def st, of "''alpha''" 3]
  show ?thesis by (simp add: tok tokenize_alpha solo_retriever_def)
qed

text \<open>
  The claim as stated fails: the only document holds \<open>alpha\<close> twice, so its term
  frequency for the query \<open>alpha\<close> is 2, and its score is 0.
\<close>

theorem single_document_score_counterexample:
  "length (documents solo_retriever) = 1 \<and>
   map snd (retrieve solo_retriever ''alpha'' 3) = [0] \<and>
   map (\<lambda>p. term_frequency ''alpha'' (fst p)) (retrieve solo_retriever ''alpha'' 3) = [2]"
proof -
  have tf: "term_frequency ''alpha'' (text_doc 1 ''alpha alpha'') = 2"
    by code_simp
  have res: "retrieve solo_retriever ''alpha'' 3 = [(text_doc 1 ''alpha alpha'', 0)]"
    by (simp add: retrieve_def score_all_def calculate_score_def add_score_def tokenize_alpha
          solo_index solo_documents py_prefix_def List.map_filter_def)
       (simp add: text_doc_def)
  show ?thesis by (simp add: res tf solo_documents)
qed

section \<open>Properties of keyword retrieval in any arithmetic\<close>

subsection \<open>The scores dictionary\<close>

lemma accumulate_in_append:
  "accumulate_in ar sc (ps @ qs) = accumulate_in ar (accumulate_in ar sc ps) qs"
  by (simp add: accumulate_in_def)

lemma accumulate_in_snoc:
  "accumulate_in ar sc (ps @ [(k, x)]) = add_score_in ar (accumulate_in ar sc ps) k x"
  by (simp add: accumulate_in_def)

lemma inner_loop_accumulate_in:
  "foldl (\<lambda>sc (did, count). add_score_in ar sc did (g did)) sc entry =
   accumulate_in ar sc (map (\<lambda>(did, c). (did, g did)) entry)"
  by (induction entry arbitrary: sc) (auto simp: accumulate_in_def)

lemma score_loop_accumulate_in:
  "foldl (\<lambda>scores token.
              case map_of (index r) token of
                None \<Rightarrow> scores
              | Some entry \<Rightarrow>
                  foldl (\<lambda>sc (did, count). add_score_in ar sc did (calculate_score_in ar r [token] did))
                        scores entry)
         sc q = accumulate_in ar sc (increments_in ar r q)"
proof (induction q arbitrary: sc)
  case Nil
  show ?case by (simp add: increments_in_def accumulate_in_def)
next
  case (Cons t q)
  have inc: "increments_in ar r (t # q) =
      map (\<lambda>(did, c). (did, calculate_score_in ar r [t] did)) (entry_of (index r) t)
      @ increments_in ar r q"
    by (simp add: increments_in_def)
  show ?case
  proof (cases "map_of (index r) t")
    case None
    then have "entry_of (index r) t = []" by (simp add: entry_of_def)
    with None Cons show ?thesis by (simp add: inc)
  next
    case (Some entry)
    then have "entry_of (index r) t = entry" by (simp add: entry_of_def)
    with Some Cons show ?thesis
      by (simp add: inc accumulate_in_append inner_loop_accumulate_in)
  qed
qed

lemma score_all_accumulate_in: "score_all_in ar r q = accumulate_in ar [] (increments_in ar r q)"
  by (simp add: score_all_in_def score_loop_accumulate_in)

lemma keys_accumulate_in: "map fst (accumulate_in ar [] ps) = first_occurrences (map fst ps)"
proof (induction ps rule: rev_induct)
  case Nil
  show ?case by (simp add: accumulate_in_def first_occurrences_def)
next
  case (snoc p ps)
  obtain k x where p: "p = (k, x)" by (cases p)
  have "set (map fst (accumulate_in ar [] ps)) = fst ` set ps"
    by (simp add: snoc.IH)
  then have mem: "k \<in> fst ` set (accumulate_in ar [] ps) \<longleftrightarrow> k \<in> fst ` set ps"
    by simp
  show ?case
    by (simp add: p accumulate_in_snoc add_score_in_def keys_dict_set mem snoc.IH
          first_occurrences_snoc)
qed

lemma value_accumulate_in:
  "map_of (accumulate_in ar [] ps) k =
     (if k \<in> fst ` set ps
      then Some (foldl (num_add ar) (num_zero ar) (map snd (filter (\<lambda>p. fst p = k) ps)))
      else None)"
proof (induction ps arbitrary: k rule: rev_induct)
  case Nil
  show ?case by (simp add: accumulate_in_def)
next
  case (snoc p ps)
  obtain k' x where p: "p = (k', x)" by (cases p)
  have none: "filter (\<lambda>p. fst p = j) ps = []" if "j \<notin> fst ` set ps" for j
    using that by (auto simp: filter_empty_conv)
  show ?case
  proof (cases "k = k'")
    case True
    show ?thesis
      by (cases "k' \<in> fst ` set ps")
         (simp_all add: p True accumulate_in_snoc add_score_in_def map_of_dict_set snoc.IH none)
  next
    case False
    then show ?thesis
      by (simp add: p accumulate_in_snoc add_score_in_def map_of_dict_set snoc.IH)
  qed
qed

lemma calculate_score_in_single:
  "calculate_score_in ar r [t] did =
     (case map_of (entry_of (index r) t) did of
        None \<Rightarrow> num_zero ar
      | Some tf \<Rightarrow>
          num_add ar (num_zero ar)
            (num_times ar tf
               (num_log ar (num_quot ar (length (documents r)) (length (entry_of (index r) t))))))"
  by (simp add: calculate_score_in_def entry_of_def split: option.splits)


subsection \<open>Scores in terms of term frequencies\<close>

lemma increments_in_well_indexed:
  assumes wf: "well_indexed r"
  shows "increments_in ar r q =
     concat (map (\<lambda>t. map (\<lambda>d. (key_of d, term_score_in ar r t d)) (containing r t)) q)"
proof -
  have "map (\<lambda>(did, c). (did, calculate_score_in ar r [t] did)) (entry_of (index r) t) =
        map (\<lambda>d. (key_of d, term_score_in ar r t d)) (containing r t)" for t
  proof -
    have inj: "inj_on key_of (set (containing r t))"
      using key_inj [OF wf] containing_subset by (rule inj_on_subset)
    have "calculate_score_in ar r [t] (key_of d) = term_score_in ar r t d"
      if "d \<in> set (containing r t)" for d
      using that map_of_keyed [OF inj that, of "term_frequency t"]
      by (simp add: calculate_score_in_single entry_well_indexed [OF wf] term_score_in_def)
    then show ?thesis
      by (simp add: entry_well_indexed [OF wf])
  qed
  then show ?thesis by (simp add: increments_in_def)
qed

lemma keys_increments_in:
  "well_indexed r \<Longrightarrow> map fst (increments_in ar r q) = map key_of (concat (map (containing r) q))"
  by (simp add: increments_in_well_indexed map_concat comp_def)

lemma keys_score_all_in:
  assumes wf: "well_indexed r"
  shows "map fst (score_all_in ar r q) = map key_of (encounter_order r q)"
proof -
  have "set (concat (map (containing r) q)) \<subseteq> set (documents r)"
    using containing_subset by auto
  with key_inj [OF wf] have "inj_on key_of (set (concat (map (containing r) q)))"
    by (rule inj_on_subset)
  then show ?thesis
    by (simp add: score_all_accumulate_in keys_accumulate_in keys_increments_in [OF wf]
          first_occurrences_map encounter_order_def)
qed

lemma pick_single:
  "distinct xs \<Longrightarrow> inj_on k (insert d (set xs)) \<Longrightarrow>
   map snd (filter (\<lambda>p. fst p = k d) (map (\<lambda>x. (k x, w x)) xs)) =
     (if d \<in> set xs then [w d] else [])"
  by (induction xs) (auto simp: inj_on_def)

lemma fold_increments_in:
  assumes wf: "well_indexed r" and d: "d \<in> set (documents r)"
  shows "foldl (num_add ar) z
           (map snd (filter (\<lambda>p. fst p = key_of d)
              (concat (map (\<lambda>t. map (\<lambda>x. (key_of x, term_score_in ar r t x)) (containing r t)) q)))) =
         foldl (\<lambda>s t. if t \<in> set (tokens_of d) then num_add ar s (term_score_in ar r t d) else s) z q"
proof (induction q arbitrary: z)
  case Nil
  show ?case by simp
next
  case (Cons t q)
  have dist: "distinct (containing r t)"
    using distinct_documents [OF wf] by (simp add: containing_def)
  have "insert d (set (containing r t)) \<subseteq> set (documents r)"
    using d containing_subset by auto
  with key_inj [OF wf] have "inj_on key_of (insert d (set (containing r t)))"
    by (rule inj_on_subset)
  from pick_single [OF dist this, of "term_score_in ar r t"] d
  have one: "map snd (filter (\<lambda>p. fst p = key_of d)
        (map (\<lambda>x. (key_of x, term_score_in ar r t x)) (containing r t))) =
      (if t \<in> set (tokens_of d) then [term_score_in ar r t d] else [])"
    by (simp add: containing_def)
  show ?case by (simp add: one Cons.IH)
qed

lemma in_keys_increments_in:
  assumes wf: "well_indexed r" and d: "d \<in> set (documents r)"
  shows "key_of d \<in> fst ` set (increments_in ar r q) \<longleftrightarrow> (\<exists>t \<in> set q. t \<in> set (tokens_of d))"
proof -
  have "fst ` set (increments_in ar r q) = key_of ` set (concat (map (containing r) q))"
    using keys_increments_in [OF wf, of ar q] by (metis set_map)
  moreover have "key_of d \<in> key_of ` A \<longleftrightarrow> d \<in> A" if "A \<subseteq> set (documents r)" for A
    using key_inj [OF wf] d that by (auto simp: inj_on_def)
  moreover have "set (concat (map (containing r) q)) \<subseteq> set (documents r)"
    using containing_subset by auto
  ultimately show ?thesis using d by (auto simp: containing_def)
qed

lemma score_of_document_in:
  assumes wf: "well_indexed r" and d: "d \<in> set (documents r)"
  shows "map_of (score_all_in ar r q) (key_of d) =
     (if \<exists>t \<in> set q. t \<in> set (tokens_of d) then Some (score_in ar r q d) else None)"
proof -
  have "foldl (num_add ar) (num_zero ar)
          (map snd (filter (\<lambda>p. fst p = key_of d) (increments_in ar r q))) = score_in ar r q d"
    unfolding increments_in_well_indexed [OF wf] score_in_def
    by (rule fold_increments_in [OF wf d])
  then show ?thesis
    by (simp add: score_all_accumulate_in value_accumulate_in in_keys_increments_in [OF wf d])
qed


subsection \<open>The result of retrieve\<close>

lemma sorted_reverse_map: "sorted_reverse f (map g xs) = map g (sorted_reverse (\<lambda>y. f (g y)) xs)"
  by (simp add: sorted_reverse_def rev_map sort_key_map_general)

lemma sorted_reverse_agree:
  "(\<And>x. x \<in> set xs \<Longrightarrow> f x = g x) \<Longrightarrow> sorted_reverse f xs = sorted_reverse g xs"
  using sort_key_agree [of "rev xs" f g] by (simp add: sorted_reverse_def)

lemma retrieve_in_characterised:
  assumes wf: "well_indexed r"
  shows "retrieve_in ar r query k =
     map (\<lambda>d. (d, score_in ar r (tokenize query) d))
       (py_prefix (sorted_reverse (score_in ar r (tokenize query))
                     (encounter_order r (tokenize query))) k)"
proof -
  let ?q = "tokenize query"
  let ?scores = "score_all_in ar r ?q"
  let ?sf = "\<lambda>x. case map_of ?scores x of None \<Rightarrow> num_zero ar | Some s \<Rightarrow> s"
  let ?E = "encounter_order r ?q"
  let ?S = "sorted_reverse (score_in ar r ?q) ?E"
  have E_docs: "d \<in> set (documents r)" and E_match: "\<exists>t \<in> set ?q. t \<in> set (tokens_of d)"
    if "d \<in> set ?E" for d
    using that by (simp_all add: set_encounter_order)
  have sc: "map_of ?scores (key_of d) = Some (score_in ar r ?q d)" if "d \<in> set ?E" for d
    using score_of_document_in [OF wf E_docs [OF that], of ar ?q] E_match [OF that] by simp
  have "sorted_reverse ?sf (map fst ?scores) = map key_of (sorted_reverse (\<lambda>d. ?sf (key_of d)) ?E)"
    by (simp add: keys_score_all_in [OF wf] sorted_reverse_map)
  also have "sorted_reverse (\<lambda>d. ?sf (key_of d)) ?E = ?S"
    by (rule sorted_reverse_agree) (simp add: sc)
  finally have ids: "py_prefix (sorted_reverse ?sf (map fst ?scores)) k = map key_of (py_prefix ?S k)"
    by (simp add: py_prefix_map)
  have inE: "d \<in> set ?E" if "d \<in> set (py_prefix ?S k)" for d
  proof -
    from that set_py_prefix [of ?S k] have "d \<in> set ?S" by auto
    then show ?thesis by (simp add: sorted_reverse_def)
  qed
  have "retrieve_in ar r query k =
      List.map_filter
        (\<lambda>did. case map_of (rev (map (\<lambda>doc. (doc_id doc, doc)) (documents r))) (Some did) of
                  None \<Rightarrow> None
                | Some doc \<Rightarrow> Some (doc, case map_of ?scores did of None \<Rightarrow> num_zero ar | Some s \<Rightarrow> s))
        (map key_of (py_prefix ?S k))"
    by (simp add: retrieve_in_def Let_def ids)
  also have "\<dots> = map (\<lambda>d. (d, score_in ar r ?q d)) (py_prefix ?S k)"
    by (rule map_filter_all_some)
       (simp add: id_to_doc_lookup [OF wf E_docs [OF inE]] sc [OF inE])
  finally show ?thesis .
qed

lemma sorted_reverse_descending:
  "sorted_wrt (\<lambda>a b. f b \<le> f a) (sorted_reverse f xs)"
proof -
  have "sorted (map f (sort_key f (rev xs)))" by (rule sorted_sort_key)
  then have "sorted (rev (map f (sorted_reverse f xs)))"
    by (simp add: sorted_reverse_def rev_map)
  then have "sorted_wrt (\<lambda>a b. b \<le> a) (map f (sorted_reverse f xs))"
    by (simp add: sorted_wrt_rev)
  then show ?thesis by (simp add: sorted_wrt_map)
qed

lemma sorted_reverse_stable:
  "filter (\<lambda>x. f x = s) (sorted_reverse f xs) = filter (\<lambda>x. f x = s) xs"
proof -
  have "filter (\<lambda>x. f x = s) (sorted_reverse f xs) = rev (filter (\<lambda>x. f x = s) (sort_key f (rev xs)))"
    by (simp add: sorted_reverse_def rev_filter)
  also have "\<dots> = rev (filter (\<lambda>x. f x = s) (rev xs))"
    by (simp add: sort_key_stable)
  finally show ?thesis by (simp add: rev_filter)
qed

lemma mset_sorted_reverse: "mset (sorted_reverse f xs) = mset xs"
  by (simp add: sorted_reverse_def)

lemma length_py_prefix_exact: "0 \<le> k \<Longrightarrow> length (py_prefix xs k) = min (nat k) (length xs)"
  by (simp add: py_prefix_def min_def)

subsection \<open>Exact arithmetic\<close>

lemma sort_key_descending:
  fixes f :: "'a \<Rightarrow> real"
  shows "sort_key (\<lambda>x. - f x) xs = sorted_reverse f xs"
proof (rule properties_for_sort_key)
  show "mset (sorted_reverse f xs) = mset xs" by (rule mset_sorted_reverse)
next
  fix k
  have "filter (\<lambda>x. - f k = - f x) ys = filter (\<lambda>x. f x = f k) ys" for ys
    by (rule filter_cong) auto
  then show "filter (\<lambda>x. - f k = - f x) (sorted_reverse f xs) = filter (\<lambda>x. - f k = - f x) xs"
    by (simp add: sorted_reverse_stable)
next
  from sorted_reverse_descending [of f xs]
  show "sorted (map (\<lambda>x. - f x) (sorted_reverse f xs))"
    by (simp add: sorted_map)
qed

lemma exact_arith_simps:
  "num_zero exact_arith = 0"
  "num_add exact_arith x y = x + y"
  "num_times exact_arith n x = real n * x"
  "num_quot exact_arith n m = real n / real m"
  "num_log exact_arith x = ln x"
  by (simp_all add: exact_arith_def)

lemma calculate_score_exact: "calculate_score_in exact_arith r q did = calculate_score r q did"
  by (simp add: calculate_score_in_def calculate_score_def exact_arith_simps
        cong: option.case_cong)

lemma add_score_exact: "add_score_in exact_arith sc did x = add_score sc did x"
  by (simp add: add_score_in_def add_score_def exact_arith_simps cong: option.case_cong)

lemma score_all_exact: "score_all_in exact_arith r q = score_all r q"
  by (simp add: score_all_in_def score_all_def calculate_score_exact add_score_exact
        cong: option.case_cong)

lemma retrieve_exact: "retrieve_in exact_arith r query k = retrieve r query k"
  by (simp add: retrieve_in_def retrieve_def score_all_exact sort_key_descending [symmetric]
        exact_arith_simps Let_def cong: option.case_cong)


subsection \<open>The examples\<close>

lemma alpha_ranking:
  fixes ar :: "('n :: linorder) arith"
  assumes "num_add ar (num_zero ar)
             (num_add ar (num_zero ar) (num_times ar 1 (num_log ar (num_quot ar 3 2))))
           < num_add ar (num_zero ar)
               (num_add ar (num_zero ar) (num_times ar 2 (num_log ar (num_quot ar 3 2))))"
  shows "map (\<lambda>p. doc_id (fst p)) (retrieve_in ar alpha_retriever ''alpha'' 3) =
           [Some (IntId 3), Some (IntId 1)]"
  using assms
  by (simp add: retrieve_in_def score_all_in_def calculate_score_in_def add_score_in_def
        tokenize_alpha alpha_index alpha_documents py_prefix_def text_doc_def
        List.map_filter_def sorted_reverse_def not_le [symmetric] eval_nat_numeral)

lemma tie_order_in_any_arithmetic:
  fixes ar :: "('n :: linorder) arith"
  shows "map (\<lambda>p. doc_id (fst p)) (retrieve_in ar tie_retriever ''b a'' 3) =
           [Some (IntId 2), Some (IntId 1)] \<and>
         map snd (retrieve_in ar tie_retriever ''b a'' 3) =
           [num_add ar (num_zero ar)
              (num_add ar (num_zero ar) (num_times ar 1 (num_log ar (num_quot ar 3 1)))),
            num_add ar (num_zero ar)
              (num_add ar (num_zero ar) (num_times ar 1 (num_log ar (num_quot ar 3 1))))]"
  by (simp add: retrieve_in_def score_all_in_def calculate_score_in_def add_score_in_def
        tokenize_b_a tie_index tie_documents py_prefix_def text_doc_def
        List.map_filter_def sorted_reverse_def eval_nat_numeral)

lemma twin_in_any_arithmetic:
  fixes ar :: "('n :: linorder) arith"
  shows "map (\<lambda>p. doc_content (fst p)) (retrieve_in ar twin_retriever ''alpha'' 3) = [Text ''beta'']"
  by (simp add: retrieve_in_def score_all_in_def calculate_score_in_def add_score_in_def
        tokenize_alpha twin_index twin_documents py_prefix_def text_doc_def
        List.map_filter_def sorted_reverse_def)

lemma negative_top_k_in_any_arithmetic:
  fixes ar :: "('n :: linorder) arith"
  shows "length (retrieve_in ar alpha_retriever ''alpha'' (- 1)) = 1"
  by (simp add: retrieve_in_def score_all_in_def calculate_score_in_def add_score_in_def
        tokenize_alpha alpha_index alpha_documents py_prefix_def text_doc_def
        List.map_filter_def sorted_reverse_def)

text \<open>
  C1, as the code has it. For documents added by \<open>add_document\<close> whose ids are
  pairwise distinct, every query and every \<open>top_k\<close>, in the arithmetic of the
  interpreter whatever it is: the documents that contain a token of the query,
  taken in the order in which \<open>retrieve\<close> first meets them (query tokens from left
  to right, and for each token the documents that contain it in insertion order;
  for a query of one token this is the insertion order), are sorted by descending
  score, documents of equal score staying in that order; the result is the
  Python slice \<open>[:top_k]\<close> of this list (its first \<open>top_k\<close> documents when
  \<open>top_k \<ge> 0\<close>), each document with its score. The score is the one of the
  specification, computed as the code does: starting from \<open>0\<close>, for each token of
  the query that occurs in the document, from left to right (a token that occurs
  twice in the query counts twice), the term frequency times the logarithm of the
  number of documents over the number of documents that contain the token is
  added. For the three documents of the specification the query \<open>alpha\<close> returns
  document 3, then document 1, and not document 2, as soon as
  \<open>0 + (0 + 1 * log(3 / 2)) < 0 + (0 + 2 * log(3 / 2))\<close>, which holds in floating
  point.
\<close>

theorem retrieve_ranks_by_tf_idf:
  fixes ar :: "('n :: linorder) arith"
  assumes built: "r = foldl add_document empty_retriever ds"
    and ids: "distinct (map doc_id (documents r))"
  shows "retrieve_in ar r query top_k =
           map (\<lambda>d. (d, score_in ar r (tokenize query) d))
             (py_prefix (sorted_reverse (score_in ar r (tokenize query))
                           (encounter_order r (tokenize query))) top_k) \<and>
         distinct (encounter_order r (tokenize query)) \<and>
         set (encounter_order r (tokenize query)) =
           {d \<in> set (documents r). \<exists>t \<in> set (tokenize query). t \<in> set (tokens_of d)} \<and>
         (\<forall>t. tokenize query = [t] \<longrightarrow> encounter_order r (tokenize query) = containing r t) \<and>
         mset (sorted_reverse (score_in ar r (tokenize query)) (encounter_order r (tokenize query)))
           = mset (encounter_order r (tokenize query)) \<and>
         sorted_wrt (\<lambda>a b. score_in ar r (tokenize query) b \<le> score_in ar r (tokenize query) a)
           (sorted_reverse (score_in ar r (tokenize query)) (encounter_order r (tokenize query))) \<and>
         (\<forall>s. filter (\<lambda>d. score_in ar r (tokenize query) d = s)
                 (sorted_reverse (score_in ar r (tokenize query)) (encounter_order r (tokenize query)))
               = filter (\<lambda>d. score_in ar r (tokenize query) d = s)
                   (encounter_order r (tokenize query))) \<and>
         (0 \<le> top_k \<longrightarrow>
            length (retrieve_in ar r query top_k)
              = min (nat top_k) (length (encounter_order r (tokenize query)))) \<and>
         (num_add ar (num_zero ar)
             (num_add ar (num_zero ar) (num_times ar 1 (num_log ar (num_quot ar 3 2))))
           < num_add ar (num_zero ar)
               (num_add ar (num_zero ar) (num_times ar 2 (num_log ar (num_quot ar 3 2)))) \<longrightarrow>
          map (\<lambda>p. doc_id (fst p)) (retrieve_in ar alpha_retriever ''alpha'' 3) =
            [Some (IntId 3), Some (IntId 1)])"
proof -
  let ?q = "tokenize query"
  let ?E = "encounter_order r ?q"
  let ?S = "score_in ar r ?q"
  have wf: "well_indexed r"
    using ids unfolding built by (rule well_indexed_foldl)
  note eq = retrieve_in_characterised [OF wf, of ar query top_k]
  have "distinct ?E" by (simp add: encounter_order_def)
  moreover note set_encounter_order [of r ?q]
  moreover have "\<forall>t. ?q = [t] \<longrightarrow> ?E = containing r t"
    using encounter_order_single [OF wf] by simp
  moreover note mset_sorted_reverse [of ?S ?E]
  moreover note sorted_reverse_descending [of ?S ?E]
  moreover have "\<forall>s. filter (\<lambda>d. ?S d = s) (sorted_reverse ?S ?E) = filter (\<lambda>d. ?S d = s) ?E"
    by (simp add: sorted_reverse_stable)
  moreover have "0 \<le> top_k \<longrightarrow> length (retrieve_in ar r query top_k) = min (nat top_k) (length ?E)"
  proof
    assume "0 \<le> top_k"
    moreover have "length (sorted_reverse ?S ?E) = length ?E"
      by (simp add: sorted_reverse_def)
    ultimately show "length (retrieve_in ar r query top_k) = min (nat top_k) (length ?E)"
      by (simp add: eq length_py_prefix_exact)
  qed
  ultimately show ?thesis using eq alpha_ranking [of ar] by blast
qed

theorem retrieve_ranks_by_tf_idf_witness:
  "alpha_retriever = foldl add_document empty_retriever
       [text_doc 1 ''alpha beta'', text_doc 2 ''beta gamma'', text_doc 3 ''alpha alpha gamma''] \<and>
   distinct (map doc_id (documents alpha_retriever)) \<and>
   num_add exact_arith (num_zero exact_arith)
       (num_add exact_arith (num_zero exact_arith)
          (num_times exact_arith 1 (num_log exact_arith (num_quot exact_arith 3 2))))
     < num_add exact_arith (num_zero exact_arith)
         (num_add exact_arith (num_zero exact_arith)
            (num_times exact_arith 2 (num_log exact_arith (num_quot exact_arith 3 2)))) \<and>
   map (\<lambda>p. doc_id (fst p)) (retrieve_in exact_arith alpha_retriever ''alpha'' 3) =
     [Some (IntId 3), Some (IntId 1)] \<and>
   length (retrieve_in exact_arith alpha_retriever ''alpha'' 1) =
     min 1 (length (encounter_order alpha_retriever (tokenize ''alpha'')))"
proof -
  have built: "alpha_retriever = foldl add_document empty_retriever
       [text_doc 1 ''alpha beta'', text_doc 2 ''beta gamma'', text_doc 3 ''alpha alpha gamma'']"
    by (simp add: alpha_retriever_def)
  have ids: "distinct (map doc_id (documents alpha_retriever))"
    by (simp add: alpha_documents text_doc_def)
  have "0 < ln (3 / 2 :: real)" by simp
  then have less: "num_add exact_arith (num_zero exact_arith)
       (num_add exact_arith (num_zero exact_arith)
          (num_times exact_arith 1 (num_log exact_arith (num_quot exact_arith 3 2))))
     < num_add exact_arith (num_zero exact_arith)
         (num_add exact_arith (num_zero exact_arith)
            (num_times exact_arith 2 (num_log exact_arith (num_quot exact_arith 3 2))))"
    by (simp add: exact_arith_simps)
  from retrieve_ranks_by_tf_idf [OF built ids, of exact_arith "''alpha''" 3] less
  have three: "map (\<lambda>p. doc_id (fst p)) (retrieve_in exact_arith alpha_retriever ''alpha'' 3) =
     [Some (IntId 3), Some (IntId 1)]"
    by blast
  from retrieve_ranks_by_tf_idf [OF built ids, of exact_arith "''alpha''" 1]
  have "0 \<le> (1 :: int) \<longrightarrow> length (retrieve_in exact_arith alpha_retriever ''alpha'' 1) =
     min (nat 1) (length (encounter_order alpha_retriever (tokenize ''alpha'')))"
    by blast
  then have one: "length (retrieve_in exact_arith alpha_retriever ''alpha'' 1) =
     min 1 (length (encounter_order alpha_retriever (tokenize ''alpha'')))"
    by simp
  from built ids less three one show ?thesis by blast
qed

text \<open>
  The claim as stated fails in three ways. Documents 1, 2 and 3 hold \<open>a\<close>, \<open>b\<close> and
  \<open>c\<close>; for the query \<open>b a\<close> the scores of documents 1 and 2 are the result of the
  same operations on the same numbers, so they are equal in every arithmetic, and
  document 2 comes first although document 1 was inserted first. Two documents
  added with the same id 1, \<open>alpha\<close> and \<open>beta\<close>: the query \<open>alpha\<close> returns the second
  one, which does not contain the token. And \<open>top_k = -1\<close> returns one document.
\<close>

theorem retrieve_tie_order_counterexample:
  "map doc_id (documents tie_retriever) = [Some (IntId 1), Some (IntId 2), Some (IntId 3)] \<and>
   map (\<lambda>p. doc_id (fst p)) (retrieve_in exact_arith tie_retriever ''b a'' 3) =
     [Some (IntId 2), Some (IntId 1)] \<and>
   map snd (retrieve_in exact_arith tie_retriever ''b a'' 3) = [ln 3, ln 3] \<and>
   map (\<lambda>p. doc_content (fst p)) (retrieve_in exact_arith twin_retriever ''alpha'' 3) =
     [Text ''beta''] \<and>
   length (retrieve_in exact_arith alpha_retriever ''alpha'' (- 1)) = 1"
proof -
  have "map doc_id (documents tie_retriever) = [Some (IntId 1), Some (IntId 2), Some (IntId 3)]"
    by (simp add: tie_documents text_doc_def)
  moreover from tie_order_in_any_arithmetic [of exact_arith]
  have "map (\<lambda>p. doc_id (fst p)) (retrieve_in exact_arith tie_retriever ''b a'' 3) =
           [Some (IntId 2), Some (IntId 1)]"
    and "map snd (retrieve_in exact_arith tie_retriever ''b a'' 3) = [ln 3, ln 3]"
    by (simp_all add: exact_arith_simps)
  moreover note twin_in_any_arithmetic [of exact_arith]
  moreover note negative_top_k_in_any_arithmetic [of exact_arith]
  ultimately show ?thesis by simp
qed


section \<open>Properties of batch processing\<close>



lemma handle_completed_quiet:
  assumes quiet: "\<And>s. snd (cb (run_jobs st ! i) s) = None"
    and ok: "run_raised st = None" and i: "i < length (run_jobs st)"
  shows "run_jobs (handle_completed (Some cb) st i) = run_jobs st \<and>
         run_raised (handle_completed (Some cb) st i) = None \<and>
         run_calls (handle_completed (Some cb) st i) = run_calls st @ [run_jobs st ! i] \<and>
         run_state (handle_completed (Some cb) st i) = fst (cb (run_jobs st ! i) (run_state st))"
proof -
  define st1 where "st1 = (case job_result (run_jobs st ! i) of
                     Some result \<Rightarrow>
                       if job_status (run_jobs st ! i) = Completed
                       then st\<lparr>run_results := run_results st @ [result]\<rparr> else st
                   | None \<Rightarrow> st)"
  have st1: "run_jobs st1 = run_jobs st" "run_raised st1 = run_raised st" "run_calls st1 = run_calls st"
    "run_state st1 = run_state st"
    by (simp_all add: st1_def split: option.splits)
  obtain s1 where s1: "cb (run_jobs st ! i) (run_state st1) = (s1, None)"
    using quiet [of "run_state st1"]
    by (cases "cb (run_jobs st ! i) (run_state st1)") auto
  have "handle_completed (Some cb) st i =
      st1\<lparr>run_state := s1, run_calls := run_calls st1 @ [run_jobs st ! i]\<rparr>"
    using ok i by (simp add: handle_completed_def Let_def st1_def [symmetric] s1)
  moreover have "fst (cb (run_jobs st ! i) (run_state st)) = s1"
    using s1 by (simp add: st1)
  ultimately show ?thesis using ok by (simp add: st1)
qed




lemma process_file_filename: "job_filename (process_file h j) = job_filename j"
  by (simp add: process_file_def start_def complete_def fail_def Let_def
        split: option.splits prod.splits sum.splits)

lemma new_job_filename: "job_filename (new_job filename file_type) = filename"
  by (simp add: new_job_def)






section \<open>Properties of the index builder\<close>

lemma walk_on_disk:
  assumes "q \<in> set (walk cwd tr directory)"
  shows "map_of tr (absolute cwd q) \<noteq> None"
proof -
  let ?A = "absolute cwd directory"
  from assms obtain found where ne: "directory \<noteq> []"
    and found: "found \<in> fst ` set tr" "prefix (?A @ ''/'') found"
    and q: "q = directory @ drop (length ?A) found"
    by (auto simp: walk_def split: if_splits)
  from found(2) obtain rest where rest: "found = ?A @ ''/'' @ rest"
    by (auto simp: prefix_def)
  then have q': "q = directory @ ''/'' @ rest" by (simp add: q)
  have "is_absolute q = is_absolute directory"
    using ne by (simp add: q' is_absolute_def)
  then have "absolute cwd q = found"
    by (simp add: absolute_def q' rest)
  with found(1) show ?thesis by (simp add: map_of_eq_None_iff)
qed

lemma file_needs_update_on_disk:
  "d q \<noteq> None \<Longrightarrow> \<exists>b. file_needs_update md5 idx d q = Inr b"
  by (auto simp: file_needs_update_def get_file_hash_def abspath_def Let_def split: option.splits)

lemma file_needs_update_same_file:
  assumes "d p = d' p"
  shows "file_needs_update md5 idx d p = file_needs_update md5 idx d' p"
proof -
  have "get_file_hash md5 d p = get_file_hash md5 d' p"
    using assms by (simp add: get_file_hash_def)
  then show ?thesis by (simp add: file_needs_update_def abspath_def split: option.splits)
qed

lemma select_files_filter:
  "select_files md5 idx d cwd force paths = Inr chosen \<Longrightarrow>
   chosen = filter (\<lambda>q. force \<or> file_needs_update md5 idx d (absolute cwd q) = Inr True) paths"
  by (induction paths arbitrary: chosen) (auto split: sum.splits if_splits)

lemma select_files_total:
  "(\<And>q. q \<in> set paths \<Longrightarrow> d (absolute cwd q) \<noteq> None) \<Longrightarrow>
   \<exists>chosen. select_files md5 idx d cwd force paths = Inr chosen"
proof (induction paths)
  case Nil
  show ?case by simp
next
  case (Cons q paths)
  then obtain chosen where "select_files md5 idx d cwd force paths = Inr chosen" by auto
  moreover obtain b where "file_needs_update md5 idx d (absolute cwd q) = Inr b"
    using file_needs_update_on_disk [of d "absolute cwd q" md5 idx] Cons.prems by auto
  ultimately show ?case by (cases force) simp_all
qed

lemma select_nothing:
  "(\<And>q. q \<in> set paths \<Longrightarrow> file_needs_update md5 idx d (absolute cwd q) = Inr False) \<Longrightarrow>
   select_files md5 idx d cwd False paths = Inr []"
  by (induction paths) simp_all

lemma add_file_total: "d p \<noteq> None \<Longrightarrow> \<exists>idx'. add_file md5 d now idx p info = Inr idx'"
  by (auto simp: add_file_def get_file_hash_def abspath_def Let_def split: option.splits)

lemma add_file_shape:
  assumes ok: "add_file md5 d now idx q info = Inr idx'"
  obtains h f r entry' where
    "get_file_hash md5 d q = Inr h" and "d q = Some f"
    and "files idx' = (files idx)(q \<mapsto> r)" and "rec_hash r = h"
    and "directories idx' = (directories idx)(dirname q \<mapsto> entry')"
    and "\<And>e. directories idx (dirname q) = Some e \<Longrightarrow> set (dir_files e) \<subseteq> set (dir_files entry')"
proof -
  obtain h f where h: "get_file_hash md5 d q = Inr h" and f: "d q = Some f"
    using ok by (auto simp: add_file_def abspath_def Let_def split: sum.splits option.splits)
  define entry where "entry = (case directories idx (dirname q) of
      None \<Rightarrow> \<lparr>dir_path = dirname q, dir_files = []\<rparr> | Some e \<Rightarrow> e)"
  define entry' where "entry' = (if q \<notin> set (dir_files entry)
      then entry\<lparr>dir_files := dir_files entry @ [q]\<rparr> else entry)"
  define r where "r = \<lparr>rec_path = q, rec_filename = basename q, rec_hash = h,
      rec_last_indexed = now,
      rec_type = (case res_type info of None \<Rightarrow> ''unknown'' | Some t \<Rightarrow> t),
      rec_size = length (data f),
      rec_metadata = (case res_metadata info of None \<Rightarrow> [] | Some m \<Rightarrow> m)\<rparr>"
  have "idx' = save_index now (idx\<lparr>directories := (directories idx)(dirname q \<mapsto> entry'),
                                      files := (files idx)(q \<mapsto> r)\<rparr>)"
    using ok h f by (auto simp: add_file_def abspath_def Let_def entry_def entry'_def r_def)
  then have "files idx' = (files idx)(q \<mapsto> r)"
    and "directories idx' = (directories idx)(dirname q \<mapsto> entry')"
    by (simp_all add: save_index_def)
  moreover have "rec_hash r = h" by (simp add: r_def)
  moreover have "set (dir_files e) \<subseteq> set (dir_files entry')"
    if "directories idx (dirname q) = Some e" for e
    using that by (simp add: entry'_def entry_def subset_insertI)
  ultimately show ?thesis using that h f by blast
qed

lemma add_file_on_disk: "add_file md5 d now idx q info = Inr idx' \<Longrightarrow> d q \<noteq> None"
  by (erule add_file_shape) simp

lemma add_file_other_record:
  "add_file md5 d now idx q info = Inr idx' \<Longrightarrow> p \<noteq> q \<Longrightarrow> files idx' p = files idx p"
  by (erule add_file_shape) simp

lemma add_file_keeps_listing:
  assumes "add_file md5 d now idx q info = Inr idx'" and "directories idx dd = Some e"
  shows "\<exists>e'. directories idx' dd = Some e' \<and> set (dir_files e) \<subseteq> set (dir_files e')"
  using assms(1)
proof (rule add_file_shape)
  fix entry'
  assume dirs: "directories idx' = (directories idx)(dirname q \<mapsto> entry')"
    and sub: "\<And>e. directories idx (dirname q) = Some e \<Longrightarrow> set (dir_files e) \<subseteq> set (dir_files entry')"
  show ?thesis
  proof (cases "dd = dirname q")
    case True
    then show ?thesis using dirs sub assms(2) by simp
  next
    case False
    then show ?thesis using dirs assms(2) by simp
  qed
qed

lemma add_file_fresh:
  "add_file md5 d now idx q info = Inr idx' \<Longrightarrow> file_needs_update md5 idx' d q = Inr False"
  by (erule add_file_shape) (simp add: file_needs_update_def abspath_def)

lemma add_file_keeps_fresh:
  assumes "add_file md5 d now idx q' info = Inr idx'"
    and "file_needs_update md5 idx d q = Inr False"
  shows "file_needs_update md5 idx' d q = Inr False"
proof (cases "q = q'")
  case True
  then show ?thesis using assms(1) by (simp add: add_file_fresh)
next
  case False
  then have "files idx' q = files idx q" using assms(1) add_file_other_record by blast
  then show ?thesis using assms(2) by (simp add: file_needs_update_def abspath_def)
qed

lemma update_index_quiet:
  assumes "\<And>q. List.find (\<lambda>file_path. basename file_path = job_filename j) files_to_index = Some q
             \<Longrightarrow> d (absolute cwd q) \<noteq> None"
  shows "snd (update_index md5 d now cwd files_to_index j s) = None"
proof (cases "job_result j")
  case None
  then show ?thesis by (simp add: update_index_def)
next
  case result: (Some result)
  show ?thesis
  proof (cases "List.find (\<lambda>file_path. basename file_path = job_filename j) files_to_index")
    case None
    with result show ?thesis by (simp add: update_index_def)
  next
    case (Some q)
    then have "d (absolute cwd q) \<noteq> None" by (rule assms)
    then obtain s' where "add_file md5 d now s (absolute cwd q) result = Inr s'"
      using add_file_total by blast
    with result Some show ?thesis by (simp add: update_index_def)
  qed
qed

lemma update_index_step:
  assumes "\<And>q result s'. add_file md5 d now s q result = Inr s' \<Longrightarrow> P s'" and "P s"
  shows "P (fst (update_index md5 d now cwd files_to_index j s))"
  using assms by (auto simp: update_index_def split: option.splits sum.splits)

lemma foldl_update_index:
  assumes "\<And>s q result s'. P s \<Longrightarrow> add_file md5 d now s q result = Inr s' \<Longrightarrow> P s'" and "P s0"
  shows "P (foldl (\<lambda>s i. fst (update_index md5 d now cwd files_to_index (jobs ! i) s)) s0 order)"
proof (induction order rule: rev_induct)
  case Nil
  show ?case using assms(2) by simp
next
  case (snoc i order)
  show ?case using assms(1) snoc by (simp add: update_index_step)
qed

lemma foldl_handle_completed_state:
  assumes quiet: "\<And>i s. i < length (run_jobs st) \<Longrightarrow> snd (cb (run_jobs st ! i) s) = None"
    and ok: "run_raised st = None"
  shows "run_jobs (foldl (handle_completed (Some cb)) st order) = run_jobs st \<and>
         run_raised (foldl (handle_completed (Some cb)) st order) = None \<and>
         run_state (foldl (handle_completed (Some cb)) st order) =
           foldl (\<lambda>s i. fst (cb (run_jobs st ! i) s)) (run_state st)
             (filter (\<lambda>i. i < length (run_jobs st)) order)"
proof (induction order rule: rev_induct)
  case Nil
  show ?case by (simp add: ok)
next
  case (snoc i order)
  let ?mid = "foldl (handle_completed (Some cb)) st order"
  from snoc have mid: "run_jobs ?mid = run_jobs st" "run_raised ?mid = None"
    "run_state ?mid = foldl (\<lambda>s i. fst (cb (run_jobs st ! i) s)) (run_state st)
             (filter (\<lambda>i. i < length (run_jobs st)) order)"
    by simp_all
  show ?case
  proof (cases "i < length (run_jobs st)")
    case True
    then have i: "i < length (run_jobs ?mid)" by (simp add: mid)
    have "\<And>s. snd (cb (run_jobs ?mid ! i) s) = None"
      using quiet [OF True] by (simp add: mid)
    from handle_completed_quiet [of cb ?mid i, OF this mid(2) i] True
    show ?thesis by (simp add: mid)
  next
    case False
    then have "handle_completed (Some cb) ?mid i = ?mid"
      by (simp add: handle_completed_def mid)
    then show ?thesis using False by (simp add: mid)
  qed
qed


subsection \<open>Staging\<close>

lemma map_of_clear_temp:
  "map_of (clear_temp cwd tr) p =
     (if dirname p = absolute cwd temp_dir then None else map_of tr p)"
  by (induction tr) (auto simp: clear_temp_def)

lemma walk_clear_temp:
  "set (walk cwd (clear_temp cwd tr) directory) \<subseteq> set (walk cwd tr directory)"
  by (auto simp: walk_def clear_temp_def)

lemma stage_file_keys:
  "map_of (st_tree (stage_file cwd st q)) p = None \<longleftrightarrow> map_of (st_tree st) p = None"
  by (auto simp: stage_file_def Let_def map_of_dict_set split: option.splits)

lemma foldl_stage_file_keys:
  "map_of (st_tree (foldl (stage_file cwd) st paths)) p = None \<longleftrightarrow> map_of (st_tree st) p = None"
  by (induction paths rule: rev_induct) (simp_all add: stage_file_keys)

lemma stage_file_staged:
  "staged (stage_file cwd st q) =
     (if map_of (staged st) (basename q) = None then staged st @ [(basename q, q)] else staged st)"
  by (simp add: stage_file_def Let_def split: option.splits)

lemma stage_file_fresh_name:
  "map_of (staged st) (basename q) = None \<Longrightarrow>
   st_tree (stage_file cwd st q) = st_tree st \<and> st_errors (stage_file cwd st q) = st_errors st"
  by (simp add: stage_file_def Let_def)

lemma find_snoc:
  "List.find P (xs @ [x]) =
     (case List.find P xs of Some y \<Rightarrow> Some y | None \<Rightarrow> if P x then Some x else None)"
  by (induction xs) simp_all

lemma staged_find:
  "map_of (staged (foldl (stage_file cwd) \<lparr>staged = [], st_tree = tr0, st_errors = 0\<rparr> paths)) name =
   List.find (\<lambda>file_path. basename file_path = name) paths"
proof (induction paths rule: rev_induct)
  case Nil
  show ?case by simp
next
  case (snoc q paths)
  let ?st = "foldl (stage_file cwd) \<lparr>staged = [], st_tree = tr0, st_errors = 0\<rparr> paths"
  show ?case
  proof (cases "map_of (staged ?st) (basename q) = None")
    case True
    then have "staged (stage_file cwd ?st q) = staged ?st @ [(basename q, q)]"
      by (simp add: stage_file_staged)
    then show ?thesis
      using snoc True by (auto simp: find_snoc map_add_def split: option.splits)
  next
    case False
    then have "staged (stage_file cwd ?st q) = staged ?st" by (simp add: stage_file_staged)
    then show ?thesis
      using snoc False by (auto simp: find_snoc split: option.splits)
  qed
qed

lemma staging_count:
  fixes tr0 :: tree
  defines "st0 \<equiv> \<lparr>staged = [], st_tree = tr0, st_errors = 0\<rparr>"
  shows "distinct (map fst (staged (foldl (stage_file cwd) st0 paths))) \<and>
         length (staged (foldl (stage_file cwd) st0 paths)) \<le> length paths \<and>
         (length (staged (foldl (stage_file cwd) st0 paths)) = length paths \<longrightarrow>
            staged (foldl (stage_file cwd) st0 paths) = map (\<lambda>p. (basename p, p)) paths \<and>
            st_tree (foldl (stage_file cwd) st0 paths) = tr0 \<and>
            st_errors (foldl (stage_file cwd) st0 paths) = 0)"
proof (induction paths rule: rev_induct)
  case Nil
  show ?case by (simp add: st0_def)
next
  case (snoc q paths)
  let ?st = "foldl (stage_file cwd) st0 paths"
  from snoc have dist: "distinct (map fst (staged ?st))"
    and le: "length (staged ?st) \<le> length paths"
    and full: "length (staged ?st) = length paths \<Longrightarrow>
            staged ?st = map (\<lambda>p. (basename p, p)) paths \<and> st_tree ?st = tr0 \<and> st_errors ?st = 0"
    by simp_all
  show ?case
  proof (cases "map_of (staged ?st) (basename q) = None")
    case True
    then have new: "basename q \<notin> fst ` set (staged ?st)" by (simp add: map_of_eq_None_iff)
    have s: "staged (stage_file cwd ?st q) = staged ?st @ [(basename q, q)]"
      using True by (simp add: stage_file_staged)
    have t: "st_tree (stage_file cwd ?st q) = st_tree ?st"
      "st_errors (stage_file cwd ?st q) = st_errors ?st"
      using stage_file_fresh_name [OF True] by simp_all
    show ?thesis using dist le full new by (auto simp: s t)
  next
    case False
    then have s: "staged (stage_file cwd ?st q) = staged ?st" by (simp add: stage_file_staged)
    show ?thesis using dist le by (simp add: s)
  qed
qed


subsection \<open>One run\<close>

lemma index_directory_unchanged:
  assumes "select_files md5 idx (map_of tr) cwd force_update (walk cwd tr directory) = Inr []"
  shows "index_directory md5 open_handlers listdir sched now cwd tr idx directory force_update =
     Inr (\<lparr>ir_directory = directory, total_files = length (walk cwd tr directory), indexed = 0,
           errors = 0, skipped = length (walk cwd tr directory)\<rparr>, idx, tr)"
  by (simp add: index_directory_def Let_def assms)

lemma index_directory_staged:
  fixes open_handlers :: "(string \<rightharpoonup> disk_file) \<Rightarrow> handlers"
    and listdir :: "string list \<Rightarrow> string list"
  assumes sel: "select_files md5 idx (map_of tr) cwd force_update (walk cwd tr directory)
                  = Inr files_to_index"
    and ne: "files_to_index \<noteq> []"
  defines "st \<equiv> foldl (stage_file cwd)
                   \<lparr>staged = [], st_tree = clear_temp cwd tr, st_errors = 0\<rparr> files_to_index"
  defines "listing \<equiv> filter (\<lambda>filename. temp_view st filename \<noteq> None)
                        (listdir (map fst (staged st)))"
  defines "jobs \<equiv> map (process_file (open_handlers (temp_view st)))
                     (map (\<lambda>filename. new_job filename (get_file_type filename)) listing)"
  shows "index_directory md5 open_handlers listdir sched now cwd tr idx directory force_update =
     Inr (\<lparr>ir_directory = directory, total_files = length (walk cwd tr directory),
           indexed = count_status Completed jobs,
           errors = st_errors st + count_status Failed jobs,
           skipped = length (walk cwd tr directory) - length files_to_index\<rparr>,
          foldl (\<lambda>s i. fst (update_index md5 (map_of (st_tree st)) now cwd files_to_index
                              (jobs ! i) s))
            idx (filter (\<lambda>i. i < length jobs) (sched (length listing))),
          st_tree st)"
proof -
  let ?cb = "update_index md5 (map_of (st_tree st)) now cwd files_to_index"
  let ?run = "\<lparr>run_jobs = jobs, run_results = [], run_state = idx, run_calls = [],
               run_raised = None\<rparr>"
  let ?out = "foldl (handle_completed (Some ?cb)) ?run (sched (length listing))"
  have quiet: "snd (?cb (run_jobs ?run ! i) s) = None" if i: "i < length (run_jobs ?run)" for i s
  proof (rule update_index_quiet)
    fix q
    assume "List.find (\<lambda>file_path. basename file_path = job_filename (run_jobs ?run ! i))
              files_to_index = Some q"
    moreover from i have name: "job_filename (run_jobs ?run ! i) = listing ! i"
      by (simp add: jobs_def process_file_filename new_job_filename)
    ultimately have "map_of (staged st) (listing ! i) = Some q"
      by (simp add: st_def staged_find)
    moreover from i have "listing ! i \<in> set listing" by (simp add: jobs_def)
    then have "temp_view st (listing ! i) \<noteq> None" by (simp add: listing_def)
    ultimately have "is_absolute q \<and> map_of (st_tree st) q \<noteq> None"
      by (auto simp: temp_view_def split: if_splits)
    then show "map_of (st_tree st) (absolute cwd q) \<noteq> None" by (simp add: absolute_def)
  qed
  have "run_raised ?run = None" by simp
  from foldl_handle_completed_state [of ?run ?cb "sched (length listing)", OF quiet this]
  have jobs: "run_jobs ?out = jobs" and raised: "run_raised ?out = None"
    and state: "run_state ?out = foldl (\<lambda>s i. fst (?cb (jobs ! i) s)) idx
                  (filter (\<lambda>i. i < length jobs) (sched (length listing)))"
    by simp_all
  have out: "process_directory (open_handlers (temp_view st)) listing (Some ?cb) sched idx = ?out"
    by (simp add: process_directory_def Let_def jobs_def)
  let ?pd = "process_directory (open_handlers (temp_view st)) listing (Some ?cb) sched idx"
  have "index_directory md5 open_handlers listdir sched now cwd tr idx directory force_update =
     (case run_raised ?pd of
        Some e \<Rightarrow> Inl FileNotFoundError
      | None \<Rightarrow>
          Inr (\<lparr>ir_directory = directory, total_files = length (walk cwd tr directory),
                indexed = count_status Completed (run_jobs ?pd),
                errors = st_errors st + count_status Failed (run_jobs ?pd),
                skipped = length (walk cwd tr directory) - length files_to_index\<rparr>,
               run_state ?pd, st_tree st))"
    unfolding index_directory_def Let_def st_def listing_def
    using ne by (simp add: sel del: not_None_eq)
  then show ?thesis
    unfolding out by (simp add: jobs raised state)
qed

lemma index_directory_total:
  "\<exists>res idx' tr'. index_directory md5 open_handlers listdir sched now cwd tr idx directory
      force_update = Inr (res, idx', tr')"
proof -
  obtain files_to_index
    where sel: "select_files md5 idx (map_of tr) cwd force_update (walk cwd tr directory)
                  = Inr files_to_index"
    using select_files_total [of "walk cwd tr directory" "map_of tr" cwd md5 idx force_update]
      walk_on_disk by blast
  show ?thesis
  proof (cases "files_to_index = []")
    case True
    with sel index_directory_unchanged [of md5 idx tr cwd force_update directory
        open_handlers listdir sched now]
    show ?thesis by simp
  next
    case False
    from index_directory_staged [OF sel False, where open_handlers = open_handlers
        and listdir = listdir and sched = sched and now = now]
    show ?thesis by simp
  qed
qed

lemma run_counts:
  assumes run: "index_directory md5 open_handlers listdir sched now cwd tr idx directory
      force_update = Inr (res, idx', tr')"
  shows "total_files res = length (walk cwd tr directory) \<and>
         skipped res = total_files res
           - length (filter (\<lambda>q. force_update \<or>
                                file_needs_update md5 idx (map_of tr) (absolute cwd q) = Inr True)
                       (walk cwd tr directory))"
proof -
  obtain files_to_index
    where sel: "select_files md5 idx (map_of tr) cwd force_update (walk cwd tr directory)
                  = Inr files_to_index"
    using select_files_total [of "walk cwd tr directory" "map_of tr" cwd md5 idx force_update]
      walk_on_disk by blast
  note chosen = select_files_filter [OF sel]
  show ?thesis
  proof (cases "files_to_index = []")
    case True
    with sel index_directory_unchanged [of md5 idx tr cwd force_update directory
        open_handlers listdir sched now] run chosen
    show ?thesis by simp
  next
    case False
    from index_directory_staged [OF sel False, where open_handlers = open_handlers
        and listdir = listdir and sched = sched and now = now] run chosen
    show ?thesis by auto
  qed
qed


subsection \<open>A file that is gone\<close>

lemma stale_record_kept_by_add:
  assumes P: "files s p = Some r \<and>
              (\<forall>dd e. directories idx dd = Some e \<longrightarrow>
                 (\<exists>e'. directories s dd = Some e' \<and> set (dir_files e) \<subseteq> set (dir_files e'))) \<and>
              reachable md5 s"
    and gone: "d p = None"
    and add: "add_file md5 d now s q result = Inr s'"
  shows "files s' p = Some r \<and>
         (\<forall>dd e. directories idx dd = Some e \<longrightarrow>
            (\<exists>e'. directories s' dd = Some e' \<and> set (dir_files e) \<subseteq> set (dir_files e'))) \<and>
         reachable md5 s'"
proof (intro conjI allI impI)
  from add have "d q \<noteq> None" by (rule add_file_on_disk)
  with gone have "p \<noteq> q" by auto
  with add have "files s' p = files s p" by (rule add_file_other_record)
  with P show "files s' p = Some r" by simp
next
  fix dd e assume "directories idx dd = Some e"
  with P obtain e1 where e1: "directories s dd = Some e1" "set (dir_files e) \<subseteq> set (dir_files e1)"
    by blast
  from add_file_keeps_listing [OF add e1(1)] obtain e2
    where "directories s' dd = Some e2" "set (dir_files e1) \<subseteq> set (dir_files e2)" by blast
  with e1(2) show "\<exists>e'. directories s' dd = Some e' \<and> set (dir_files e) \<subseteq> set (dir_files e')"
    by blast
next
  from P add show "reachable md5 s'" by (blast intro: reach_add)
qed

text \<open>
  C5. \<open>index_directory\<close> looks only at the files \<open>os.walk\<close> finds, and nothing in the
  builder calls \<open>remove_file\<close>. A rescan always returns; the record of a file that
  is no longer on disk stays in the file map and in its directory entry, the index
  stays one that \<open>add_file\<close>, \<open>remove_file\<close> and \<open>clear_index\<close> can produce, so every
  listed path still has its record. An explicit \<open>remove_file\<close> of the path drops the
  record and the listing.
\<close>

theorem rescan_keeps_stale_record:
  assumes reach: "reachable md5 idx" and rec: "files idx p = Some r"
    and gone: "map_of tr p = None"
  shows "\<exists>res idx' tr'.
           index_directory md5 open_handlers listdir sched now cwd tr idx directory force_update
             = Inr (res, idx', tr') \<and>
           map_of tr' p = None \<and>
           files idx' p = Some r \<and>
           (\<forall>dd e. directories idx dd = Some e \<and> p \<in> set (dir_files e) \<longrightarrow>
              (\<exists>e'. directories idx' dd = Some e' \<and> p \<in> set (dir_files e'))) \<and>
           reachable md5 idx' \<and> index_consistent idx' \<and>
           files (remove_file later idx' p) p = None \<and>
           (\<forall>dd e. directories (remove_file later idx' p) dd = Some e \<longrightarrow> p \<notin> set (dir_files e))"
proof -
  let ?P = "\<lambda>s. files s p = Some r \<and>
              (\<forall>dd e. directories idx dd = Some e \<longrightarrow>
                 (\<exists>e'. directories s dd = Some e' \<and> set (dir_files e) \<subseteq> set (dir_files e'))) \<and>
              reachable md5 s"
  have P0: "?P idx" using reach rec by simp
  obtain files_to_index
    where sel: "select_files md5 idx (map_of tr) cwd force_update (walk cwd tr directory)
                  = Inr files_to_index"
    using select_files_total [of "walk cwd tr directory" "map_of tr" cwd md5 idx force_update]
      walk_on_disk by blast
  have "\<exists>res idx' tr'.
           index_directory md5 open_handlers listdir sched now cwd tr idx directory force_update
             = Inr (res, idx', tr') \<and> map_of tr' p = None \<and> ?P idx'"
  proof (cases "files_to_index = []")
    case True
    with sel index_directory_unchanged [of md5 idx tr cwd force_update directory
        open_handlers listdir sched now]
    show ?thesis using P0 gone by simp
  next
    case False
    define st where "st = foldl (stage_file cwd)
        \<lparr>staged = [], st_tree = clear_temp cwd tr, st_errors = 0\<rparr> files_to_index"
    have gone': "map_of (st_tree st) p = None"
      using gone by (simp add: st_def foldl_stage_file_keys map_of_clear_temp)
    have step: "\<And>s q result s'. ?P s \<Longrightarrow>
        add_file md5 (map_of (st_tree st)) now s q result = Inr s' \<Longrightarrow> ?P s'"
      using stale_record_kept_by_add [where d = "map_of (st_tree st)" and p = p and r = r
          and idx = idx and ?md5.0 = md5] gone' by blast
    note run = index_directory_staged [OF sel False, where open_handlers = open_handlers
        and listdir = listdir and sched = sched and now = now, folded st_def]
    show ?thesis
      unfolding run
      using foldl_update_index [of ?P md5 "map_of (st_tree st)" now idx, OF step P0] gone'
      by simp
  qed
  then obtain res idx' tr' where
    run: "index_directory md5 open_handlers listdir sched now cwd tr idx directory force_update
            = Inr (res, idx', tr')"
    and gone': "map_of tr' p = None" and P: "?P idx'"
    by blast
  from P have reach': "reachable md5 idx'" by simp
  then have wf: "dirs_wellformed idx'" by (rule reachable_wellformed)
  have "files (remove_file later idx' p) p = None"
    using remove_file_drops_record [of later idx' p] by (simp add: abspath_def)
  moreover have "p \<notin> set (dir_files e)" if "directories (remove_file later idx' p) dd = Some e" for dd e
    using remove_file_drops_listing [OF wf that] by (simp add: abspath_def)
  moreover have "\<exists>e'. directories idx' dd = Some e' \<and> p \<in> set (dir_files e')"
    if "directories idx dd = Some e \<and> p \<in> set (dir_files e)" for dd e
    using P that by blast
  moreover have "index_consistent idx'" using wf by (rule wellformed_consistent)
  ultimately show ?thesis using run gone' P by blast
qed

lemma example_index_record: "files example_index ''/a/f.txt'' = Some example_record"
  by (simp add: example_index_def example_record_def example_info_def add_file_def
      get_file_hash_def abspath_def plain_file_def Let_def save_index_def basename_def
      example_digest_def)

lemma example_index_listing:
  "directories example_index ''/a'' = Some \<lparr>dir_path = ''/a'', dir_files = [''/a/f.txt'']\<rparr>"
  by (simp add: example_index_def example_info_def add_file_def create_empty_index_def
      get_file_hash_def abspath_def plain_file_def Let_def save_index_def dirname_def)

theorem rescan_keeps_stale_record_witness:
  "reachable example_digest example_index \<and>
   files example_index ''/a/f.txt'' = Some example_record \<and>
   map_of sibling_tree ''/a/f.txt'' = None \<and>
   (\<exists>res idx' tr'.
      index_directory example_digest plain_handlers creation_order in_order 1 ''/w'' sibling_tree
        example_index ''/a'' False = Inr (res, idx', tr') \<and>
      files idx' ''/a/f.txt'' = Some example_record \<and>
      index_consistent idx' \<and>
      files (remove_file 2 idx' ''/a/f.txt'') ''/a/f.txt'' = None)"
proof -
  have gone: "map_of sibling_tree ''/a/f.txt'' = None" by (simp add: sibling_tree_def)
  from rescan_keeps_stale_record [OF reachable_example_index example_index_record gone,
      of plain_handlers creation_order in_order 1 "''/w''" "''/a''" False 2]
  show ?thesis using reachable_example_index example_index_record gone by blast
qed

text \<open>
  The file \<open>/a/f.txt\<close> has a record and is gone from disk: the rescan of \<open>/a\<close> returns
  the index as it was, with the record and with the path in the directory entry.
\<close>

theorem rescan_drops_nothing_counterexample:
  "files example_index ''/a/f.txt'' = Some example_record \<and>
   directories example_index ''/a'' = Some \<lparr>dir_path = ''/a'', dir_files = [''/a/f.txt'']\<rparr> \<and>
   index_directory example_digest plain_handlers creation_order in_order 1 ''/w'' [] example_index
       ''/a'' False =
     Inr (\<lparr>ir_directory = ''/a'', total_files = 0, indexed = 0, errors = 0, skipped = 0\<rparr>,
          example_index, [])"
  by (simp add: example_index_record example_index_listing index_directory_def walk_def)


subsection \<open>A second run\<close>

lemma process_file_result:
  "job_status (process_file h j) = Completed \<Longrightarrow> job_result (process_file h j) \<noteq> None"
  by (simp add: process_file_def start_def complete_def fail_def Let_def
        split: option.splits prod.splits sum.splits if_splits)

lemma filter_all_of_length:
  "length (filter P xs) = length xs \<Longrightarrow> filter P xs = xs"
proof (induction xs)
  case Nil
  show ?case by simp
next
  case (Cons x xs)
  have le: "length (filter P xs) \<le> length xs" by (rule length_filter_le)
  show ?case
  proof (cases "P x")
    case True
    with Cons show ?thesis by simp
  next
    case False
    with Cons.prems le show ?thesis by simp
  qed
qed

lemma update_index_keeps_fresh:
  assumes "file_needs_update md5 s d q = Inr False"
  shows "file_needs_update md5 (fst (update_index md5 d now cwd files_to_index j s)) d q = Inr False"
proof (rule update_index_step [where P = "\<lambda>s. file_needs_update md5 s d q = Inr False"])
  show "file_needs_update md5 s d q = Inr False" by (rule assms)
next
  fix q' result s'
  assume "add_file md5 d now s q' result = Inr s'"
  then show "file_needs_update md5 s' d q = Inr False" using assms by (rule add_file_keeps_fresh)
qed

lemma update_index_makes_fresh:
  assumes "job_status j = Completed" and "job_result j \<noteq> None"
    and "List.find (\<lambda>file_path. basename file_path = job_filename j) files_to_index = Some q"
    and "d (absolute cwd q) \<noteq> None"
  shows "file_needs_update md5 (fst (update_index md5 d now cwd files_to_index j s)) d
           (absolute cwd q) = Inr False"
proof -
  from assms(2) obtain result where result: "job_result j = Some result" by auto
  from assms(4) obtain s' where add: "add_file md5 d now s (absolute cwd q) result = Inr s'"
    using add_file_total by blast
  then have "fst (update_index md5 d now cwd files_to_index j s) = s'"
    using assms(1,3) result by (simp add: update_index_def)
  then show ?thesis using add by (simp add: add_file_fresh)
qed

lemma fresh_after_callbacks:
  assumes found: "\<And>i. i \<in> set order \<Longrightarrow>
        job_status (jobs ! i) = Completed \<and> job_result (jobs ! i) \<noteq> None \<and>
        List.find (\<lambda>file_path. basename file_path = job_filename (jobs ! i)) files_to_index
          = Some (pick i) \<and>
        d (absolute cwd (pick i)) \<noteq> None"
  shows "(file_needs_update md5 s0 d p = Inr False \<longrightarrow>
          file_needs_update md5
            (foldl (\<lambda>s i. fst (update_index md5 d now cwd files_to_index (jobs ! i) s)) s0 order)
            d p = Inr False) \<and>
         (\<forall>i \<in> set order.
          file_needs_update md5
            (foldl (\<lambda>s i. fst (update_index md5 d now cwd files_to_index (jobs ! i) s)) s0 order)
            d (absolute cwd (pick i)) = Inr False)"
  using found
proof (induction order rule: rev_induct)
  case Nil
  show ?case by simp
next
  case (snoc k order)
  let ?mid = "foldl (\<lambda>s i. fst (update_index md5 d now cwd files_to_index (jobs ! i) s)) s0 order"
  let ?fin = "fst (update_index md5 d now cwd files_to_index (jobs ! k) ?mid)"
  from snoc have keep: "file_needs_update md5 s0 d p = Inr False \<Longrightarrow>
      file_needs_update md5 ?mid d p = Inr False"
    and made: "\<And>i. i \<in> set order \<Longrightarrow>
      file_needs_update md5 ?mid d (absolute cwd (pick i)) = Inr False"
    by simp_all
  have k: "file_needs_update md5 ?fin d (absolute cwd (pick k)) = Inr False"
    using snoc.prems [of k] by (simp add: update_index_makes_fresh)
  have "file_needs_update md5 ?fin d p = Inr False" if "file_needs_update md5 s0 d p = Inr False"
    using keep [OF that] by (rule update_index_keeps_fresh)
  moreover have "file_needs_update md5 ?fin d (absolute cwd (pick i)) = Inr False"
    if "i \<in> set order" for i
    using made [OF that] by (rule update_index_keeps_fresh)
  ultimately show ?case using k by simp
qed

lemma find_by_basename:
  assumes "distinct (map basename paths)" and "i < length paths"
  shows "List.find (\<lambda>file_path. basename file_path = basename (paths ! i)) paths = Some (paths ! i)"
proof -
  have "basename (paths ! j) \<noteq> basename (paths ! i)" if "j < i" for j
  proof
    assume eq: "basename (paths ! j) = basename (paths ! i)"
    from that assms(2) have "j < length (map basename paths)" "i < length (map basename paths)"
      by simp_all
    moreover have "map basename paths ! j = map basename paths ! i"
      using eq that assms(2) by simp
    ultimately have "j = i" using assms(1) nth_eq_iff_index_eq by blast
    with that show False by simp
  qed
  then show ?thesis using assms(2) by (auto simp: find_Some_iff)
qed

lemma all_fresh_after_run:
  assumes listed: "\<forall>names. mset (listdir names) = mset names"
    and sched: "\<forall>K. mset (sched K) = mset [0 ..< K]"
    and run: "index_directory md5 open_handlers listdir sched now cwd tr idx directory
      force_update = Inr (res, idx', tr')"
    and full: "indexed res + skipped res = total_files res"
  shows "\<forall>q \<in> set (walk cwd tr' directory).
           file_needs_update md5 idx' (map_of tr') (absolute cwd q) = Inr False"
proof -
  let ?walk = "walk cwd tr directory"
  obtain files_to_index
    where sel: "select_files md5 idx (map_of tr) cwd force_update ?walk = Inr files_to_index"
    using select_files_total [of ?walk "map_of tr" cwd md5 idx force_update] walk_on_disk
    by blast
  note chosen = select_files_filter [OF sel]
  have rest: "file_needs_update md5 idx (map_of tr) (absolute cwd q) = Inr False"
    if q1: "q \<in> set ?walk" and q2: "q \<notin> set files_to_index" for q
  proof -
    from q1 q2 chosen
    have "file_needs_update md5 idx (map_of tr) (absolute cwd q) \<noteq> Inr True" by auto
    moreover obtain b where "file_needs_update md5 idx (map_of tr) (absolute cwd q) = Inr b"
      using file_needs_update_on_disk [of "map_of tr" "absolute cwd q" md5 idx]
        walk_on_disk [OF q1] by blast
    ultimately show ?thesis by (cases b) simp_all
  qed
  show ?thesis
  proof (cases "files_to_index = []")
    case True
    with sel index_directory_unchanged [of md5 idx tr cwd force_update directory
        open_handlers listdir sched now] run
    have "idx' = idx" "tr' = tr" by simp_all
    with rest True show ?thesis by simp
  next
    case False
    define st where "st = foldl (stage_file cwd)
        \<lparr>staged = [], st_tree = clear_temp cwd tr, st_errors = 0\<rparr> files_to_index"
    define names where "names = listdir (map fst (staged st))"
    define listing where
      "listing = filter (\<lambda>filename. temp_view st filename \<noteq> None) names"
    define jobs where "jobs = map (process_file (open_handlers (temp_view st)))
                     (map (\<lambda>filename. new_job filename (get_file_type filename)) listing)"
    define order where "order = filter (\<lambda>i. i < length jobs) (sched (length listing))"
    from index_directory_staged [OF sel False, where open_handlers = open_handlers
        and listdir = listdir and sched = sched and now = now] run
    have res: "indexed res = count_status Completed jobs"
        "skipped res = length ?walk - length files_to_index"
        "total_files res = length ?walk"
      and idx': "idx' = foldl (\<lambda>s i. fst (update_index md5 (map_of (st_tree st)) now cwd
                   files_to_index (jobs ! i) s)) idx order"
      and tr': "tr' = st_tree st"
      unfolding st_def names_def listing_def jobs_def order_def by auto
    have "length files_to_index \<le> length ?walk" unfolding chosen by (rule length_filter_le)
    with full res have cnt: "count_status Completed jobs = length files_to_index" by simp
    have len_jobs: "length jobs = length listing" by (simp add: jobs_def)
    from listed have names_mset: "mset names = mset (map fst (staged st))"
      by (simp add: names_def)
    then have "length names = length (map fst (staged st))" by (rule mset_eq_length)
    then have len_names: "length names = length (staged st)" by simp
    have len_listing: "length listing \<le> length names"
      unfolding listing_def by (rule length_filter_le)
    from staging_count [of cwd "clear_temp cwd tr" files_to_index]
    have dist: "distinct (map fst (staged st))"
      and le: "length (staged st) \<le> length files_to_index"
      and fullst: "length (staged st) = length files_to_index \<Longrightarrow>
            staged st = map (\<lambda>p. (basename p, p)) files_to_index \<and> st_tree st = clear_temp cwd tr"
      unfolding st_def by simp_all
    have cnt_le: "count_status Completed jobs \<le> length jobs"
      unfolding count_status_def by (rule length_filter_le)
    from cnt cnt_le len_jobs len_listing len_names le
    have l1: "length (staged st) = length files_to_index"
      and l2: "length listing = length names"
      and l3: "count_status Completed jobs = length jobs"
      by simp_all
    from fullst [OF l1] have staged: "staged st = map (\<lambda>p. (basename p, p)) files_to_index"
      and tree: "st_tree st = clear_temp cwd tr" by simp_all
    have same: "listing = names"
      unfolding listing_def using l2 [unfolded listing_def] by (rule filter_all_of_length)
    with names_mset have "mset listing = mset (map basename files_to_index)"
      by (simp add: staged comp_def)
    then have "set listing = set (map basename files_to_index)" by (rule mset_eq_setD)
    then have listing: "set listing = basename ` set files_to_index" by simp
    have distinct: "distinct (map basename files_to_index)"
      using dist by (simp add: staged comp_def)
    have "filter (\<lambda>j. job_status j = Completed) jobs = jobs"
      using l3 [unfolded count_status_def] by (rule filter_all_of_length)
    then have completed: "\<And>j. j \<in> set jobs \<Longrightarrow> job_status j = Completed"
      by (simp add: filter_id_conv)
    define pick where
      "pick i = the (List.find (\<lambda>file_path. basename file_path = listing ! i) files_to_index)" for i
    have lookup: "List.find (\<lambda>file_path. basename file_path = basename q) files_to_index = Some q"
      if "q \<in> set files_to_index" for q
    proof -
      from that obtain k where "k < length files_to_index" "q = files_to_index ! k"
        by (auto simp: in_set_conv_nth)
      with find_by_basename [OF distinct, of k] show ?thesis by simp
    qed
    have resolves: "is_absolute q \<and> map_of (st_tree st) q \<noteq> None"
      if q: "q \<in> set files_to_index" for q
    proof -
      from q have "basename q \<in> set listing" by (simp add: listing)
      then have "temp_view st (basename q) \<noteq> None" by (simp add: listing_def)
      moreover have "map_of (staged st) (basename q) = Some q"
        using lookup [OF q] by (simp add: st_def staged_find)
      ultimately show ?thesis by (auto simp: temp_view_def split: if_splits)
    qed
    have picked: "List.find (\<lambda>file_path. basename file_path = listing ! i) files_to_index
          = Some (pick i) \<and> pick i \<in> set files_to_index" if "i < length listing" for i
    proof -
      from that have "listing ! i \<in> basename ` set files_to_index"
        using listing nth_mem by blast
      then obtain q where q: "q \<in> set files_to_index" "listing ! i = basename q" by blast
      with lookup [OF q(1)] show ?thesis by (simp add: pick_def)
    qed
    have found: "job_status (jobs ! i) = Completed \<and> job_result (jobs ! i) \<noteq> None \<and>
        List.find (\<lambda>file_path. basename file_path = job_filename (jobs ! i)) files_to_index
          = Some (pick i) \<and>
        map_of (st_tree st) (absolute cwd (pick i)) \<noteq> None" if "i \<in> set order" for i
    proof -
      from that have i: "i < length listing" by (simp add: order_def len_jobs)
      then have mem: "jobs ! i \<in> set jobs" by (simp add: len_jobs)
      then have c: "job_status (jobs ! i) = Completed" by (rule completed)
      have shape: "jobs ! i = process_file (open_handlers (temp_view st))
          (new_job (listing ! i) (get_file_type (listing ! i)))"
        using i by (simp add: jobs_def)
      have r: "job_result (jobs ! i) \<noteq> None"
        using c unfolding shape by (rule process_file_result)
      have n: "job_filename (jobs ! i) = listing ! i"
        by (simp add: shape process_file_filename new_job_filename)
      from picked [OF i] resolves
      have "is_absolute (pick i) \<and> map_of (st_tree st) (pick i) \<noteq> None" by blast
      then have "map_of (st_tree st) (absolute cwd (pick i)) \<noteq> None"
        by (simp add: absolute_def)
      with c r n picked [OF i] show ?thesis by simp
    qed
    have everyone: "\<exists>i \<in> set order. pick i = q" if "q \<in> set files_to_index" for q
    proof -
      from that have "basename q \<in> set listing" by (simp add: listing)
      then obtain i where i: "i < length listing" "listing ! i = basename q"
        by (auto simp: in_set_conv_nth)
      from sched have "set (sched (length listing)) = set [0 ..< length listing]"
        using mset_eq_setD by blast
      with i(1) have "i \<in> set order" by (simp add: order_def len_jobs)
      moreover have "pick i = q" using lookup [OF that] by (simp add: pick_def i(2))
      ultimately show ?thesis by blast
    qed
    have "file_needs_update md5 idx' (map_of tr') (absolute cwd q) = Inr False"
      if q: "q \<in> set (walk cwd tr' directory)" for q
    proof -
      from q have q1: "q \<in> set ?walk" using walk_clear_temp by (auto simp: tr' tree)
      from walk_on_disk [OF q] have "map_of (clear_temp cwd tr) (absolute cwd q) \<noteq> None"
        by (simp add: tr' tree)
      then have kept: "map_of (clear_temp cwd tr) (absolute cwd q) = map_of tr (absolute cwd q)"
        by (simp add: map_of_clear_temp split: if_splits)
      show ?thesis
      proof (cases "q \<in> set files_to_index")
        case True
        then obtain i where i: "i \<in> set order" "pick i = q" using everyone by blast
        from fresh_after_callbacks [of order jobs files_to_index pick "map_of (st_tree st)" cwd
            md5 idx "absolute cwd q" now] found i
        show ?thesis by (auto simp: idx' tr')
      next
        case False
        from rest [OF q1 False] kept
        have "file_needs_update md5 idx (map_of (st_tree st)) (absolute cwd q) = Inr False"
          using file_needs_update_same_file [of "map_of (clear_temp cwd tr)" "absolute cwd q"
              "map_of tr" md5 idx]
          by (simp add: tree)
        with fresh_after_callbacks [of order jobs files_to_index pick "map_of (st_tree st)" cwd
            md5 idx "absolute cwd q" now] found
        show ?thesis by (simp add: idx' tr')
      qed
    qed
    then show ?thesis by simp
  qed
qed

text \<open>
  C4. Every run returns, and it skips the files that need no update (all files
  need one under \<open>force_update\<close>). Two runs in succession without \<open>force_update\<close>,
  each future completing once: when the first run has indexed every file that
  needed an update (\<open>indexed + skipped = total_files\<close> in its result), and the
  second run finds in the directory exactly the files the first one left there,
  with the content they had, then the second run indexes nothing, skips every
  file and leaves the index as it was. What the second run finds is an argument
  of its own, because the first run writes to the disk: the links in
  \<open>data/temp_index\<close> and the index file, which are new files of the directory when
  they lie under it.
\<close>

theorem second_run_skips_everything:
  assumes listed: "\<forall>names. mset (listdir names) = mset names"
    and sched: "\<forall>K. mset (sched K) = mset [0 ..< K]"
    and first: "index_directory md5 open_handlers listdir sched now1 cwd tr idx directory False
                  = Inr (res1, idx1, tr1)"
    and full: "indexed res1 + skipped res1 = total_files res1"
    and same_files: "walk cwd tr2 directory = walk cwd tr1 directory"
    and same_content: "\<forall>q \<in> set (walk cwd tr2 directory).
                         map_of tr2 (absolute cwd q) = map_of tr1 (absolute cwd q)"
  shows "index_directory md5 open_handlers listdir sched now2 cwd tr2 idx1 directory False =
           Inr (\<lparr>ir_directory = directory, total_files = length (walk cwd tr2 directory),
                  indexed = 0, errors = 0, skipped = length (walk cwd tr2 directory)\<rparr>,
                idx1, tr2) \<and>
         total_files res1 = length (walk cwd tr directory) \<and>
         skipped res1 = total_files res1
           - length (filter (\<lambda>q. file_needs_update md5 idx (map_of tr) (absolute cwd q) = Inr True)
                       (walk cwd tr directory)) \<and>
         (\<exists>res idx' tr'.
            index_directory md5 open_handlers listdir sched now cwd tr0 idx0 directory0 force_update
              = Inr (res, idx', tr') \<and>
            total_files res = length (walk cwd tr0 directory0) \<and>
            skipped res = total_files res
              - length (filter (\<lambda>q. force_update \<or>
                                  file_needs_update md5 idx0 (map_of tr0) (absolute cwd q) = Inr True)
                          (walk cwd tr0 directory0)))"
proof -
  have fresh: "file_needs_update md5 idx1 (map_of tr2) (absolute cwd q) = Inr False"
    if q: "q \<in> set (walk cwd tr2 directory)" for q
  proof -
    from q same_files have "q \<in> set (walk cwd tr1 directory)" by simp
    with all_fresh_after_run [OF listed sched first full]
    have "file_needs_update md5 idx1 (map_of tr1) (absolute cwd q) = Inr False" by blast
    moreover from q same_content
    have "map_of tr2 (absolute cwd q) = map_of tr1 (absolute cwd q)" by blast
    ultimately show ?thesis
      using file_needs_update_same_file [of "map_of tr2" "absolute cwd q" "map_of tr1" md5 idx1]
      by simp
  qed
  then have "select_files md5 idx1 (map_of tr2) cwd False (walk cwd tr2 directory) = Inr []"
    by (rule select_nothing)
  note second = index_directory_unchanged [OF this, of open_handlers listdir sched now2]
  from run_counts [OF first]
  have counts: "total_files res1 = length (walk cwd tr directory)"
    "skipped res1 = total_files res1
       - length (filter (\<lambda>q. file_needs_update md5 idx (map_of tr) (absolute cwd q) = Inr True)
                   (walk cwd tr directory))"
    by simp_all
  obtain res idx' tr' where any:
    "index_directory md5 open_handlers listdir sched now cwd tr0 idx0 directory0 force_update
       = Inr (res, idx', tr')"
    using index_directory_total by blast
  from run_counts [OF any] any second counts show ?thesis by blast
qed


theorem second_run_skips_everything_witness:
  "(\<forall>names. mset (creation_order names) = mset names) \<and>
   (\<forall>K. mset (in_order K) = mset [0 ..< K]) \<and>
   (\<exists>res1 idx1 tr1.
      index_directory example_digest plain_handlers creation_order in_order 1 ''/w'' txt_tree
        (create_empty_index 0) ''/a'' False = Inr (res1, idx1, tr1) \<and>
      res1 = \<lparr>ir_directory = ''/a'', total_files = 1, indexed = 1, errors = 0, skipped = 0\<rparr> \<and>
      indexed res1 + skipped res1 = total_files res1 \<and>
      walk ''/w'' txt_tree ''/a'' = walk ''/w'' tr1 ''/a'' \<and>
      (\<forall>q \<in> set (walk ''/w'' txt_tree ''/a'').
         map_of txt_tree (absolute ''/w'' q) = map_of tr1 (absolute ''/w'' q)) \<and>
      index_directory example_digest plain_handlers creation_order in_order 2 ''/w'' txt_tree
        idx1 ''/a'' False =
        Inr (\<lparr>ir_directory = ''/a'', total_files = 1, indexed = 0, errors = 0, skipped = 1\<rparr>,
             idx1, txt_tree))"
proof -
  have listed: "\<forall>names. mset (creation_order names) = mset names"
    by (simp add: creation_order_def)
  have sched: "\<forall>K. mset (in_order K) = mset [0 ..< K]" by (simp add: in_order_def)
  obtain res1 idx1 tr1 where first:
    "index_directory example_digest plain_handlers creation_order in_order 1 ''/w'' txt_tree
        (create_empty_index 0) ''/a'' False = Inr (res1, idx1, tr1)"
    using index_directory_total by blast
  have "map_sum id (\<lambda>p. (fst p, snd (snd p)))
      (index_directory example_digest plain_handlers creation_order in_order 1 ''/w'' txt_tree
        (create_empty_index 0) ''/a'' False) =
      Inr (\<lparr>ir_directory = ''/a'', total_files = 1, indexed = 1, errors = 0, skipped = 0\<rparr>,
           txt_tree)"
    by code_simp
  with first have res1: "res1 =
      \<lparr>ir_directory = ''/a'', total_files = 1, indexed = 1, errors = 0, skipped = 0\<rparr>"
    and tr1: "tr1 = txt_tree"
    by simp_all
  have full: "indexed res1 + skipped res1 = total_files res1" by (simp add: res1)
  have found: "walk ''/w'' txt_tree ''/a'' = [''/a/f.txt'']" by code_simp
  have same_files: "walk ''/w'' txt_tree ''/a'' = walk ''/w'' tr1 ''/a''" by (simp add: tr1)
  have same_content: "\<forall>q \<in> set (walk ''/w'' txt_tree ''/a'').
      map_of txt_tree (absolute ''/w'' q) = map_of tr1 (absolute ''/w'' q)"
    by (simp add: tr1)
  from second_run_skips_everything [OF listed sched first full same_files same_content, of 2]
  have "index_directory example_digest plain_handlers creation_order in_order 2 ''/w'' txt_tree
        idx1 ''/a'' False =
        Inr (\<lparr>ir_directory = ''/a'', total_files = 1, indexed = 0, errors = 0, skipped = 1\<rparr>,
             idx1, txt_tree)"
    by (simp add: found)
  with listed sched first res1 full same_files same_content show ?thesis by blast
qed

text \<open>
  A file of a type the batch processor does not support is never indexed, so it
  needs an update in every run. The directory \<open>/d\<close> holds one such file and the
  working directory is \<open>/w\<close>, so neither the staging directory nor the index file
  lies under \<open>/d\<close>; the first run leaves the file as it is. Both runs find one
  file, index nothing and skip nothing.
\<close>

theorem unsupported_file_counterexample:
  "map_sum id (snd \<circ> snd)
     (index_directory example_digest plain_handlers creation_order in_order 1 ''/w'' odd_tree
        (create_empty_index 0) ''/d'' False) = Inr odd_tree \<and>
   index_twice example_digest plain_handlers creation_order in_order 1 2 ''/w'' odd_tree odd_tree
     (create_empty_index 0) ''/d'' =
     Inr (\<lparr>ir_directory = ''/d'', total_files = 1, indexed = 0, errors = 1, skipped = 0\<rparr>,
          \<lparr>ir_directory = ''/d'', total_files = 1, indexed = 0, errors = 1, skipped = 0\<rparr>)"
  by code_simp

text \<open>
  Two more runs, in the working directory \<open>/w\<close>. The first indexes \<open>/w/data\<close>, under
  which the staging directory and the index file lie: it indexes the one file
  there; by the second run the directory also holds the index file and the staged
  link (which \<open>os.walk\<close> lists and \<open>open\<close> follows), so the second run finds three
  files, skips the first, removes the link, stages a link to the index file and a
  link to the removed one, which dangles, and indexes the index file. The second
  indexes the relative directory \<open>a\<close>: the link to \<open>a/f.txt\<close> dangles, no job is
  made, and the file is neither indexed nor skipped nor counted as an error.
\<close>

lemma writes_under_directory_example:
  "index_twice example_digest plain_handlers creation_order in_order 1 2 ''/w'' data_tree
     data_tree_later (create_empty_index 0) ''/w/data'' =
     Inr (\<lparr>ir_directory = ''/w/data'', total_files = 1, indexed = 1, errors = 0, skipped = 0\<rparr>,
          \<lparr>ir_directory = ''/w/data'', total_files = 3, indexed = 1, errors = 0, skipped = 1\<rparr>)"
  by code_simp

lemma relative_directory_example:
  "walk ''/w'' home_tree ''a'' = [''a/f.txt''] \<and>
   map_sum id fst
     (index_directory example_digest plain_handlers creation_order in_order 1 ''/w'' home_tree
        (create_empty_index 0) ''a'' False) =
     Inr \<lparr>ir_directory = ''a'', total_files = 1, indexed = 0, errors = 0, skipped = 0\<rparr>"
  by code_simp


end
